theory Spec2Isabelle
  imports Main "HOL-Library.AList"
begin

section \<open>JavaScript values and the insertion-ordered Map\<close>

text \<open>
  The values that flow through \<^verbatim>\<open>index.js\<close>: \<^verbatim>\<open>undefined\<close>, the boolean
  \<^verbatim>\<open>false\<close>, a string, and an array of strings.
\<close>

datatype jsval = JUndefined | JFalse | JString string | JArray "string list"

text \<open>JavaScript truthiness of these values: \<^verbatim>\<open>undefined\<close>, \<^verbatim>\<open>false\<close> and
  the empty string are falsy; every array (also the empty one) is truthy.\<close>

fun truthy :: "jsval \<Rightarrow> bool" where
  "truthy JUndefined = False"
| "truthy JFalse = False"
| "truthy (JString s) = (s \<noteq> [])"
| "truthy (JArray xs) = True"

text \<open>\<^verbatim>\<open>xs[0]\<close> on an array of strings: \<^verbatim>\<open>undefined\<close> when the array is empty.\<close>

fun index0 :: "string list \<Rightarrow> jsval" where
  "index0 [] = JUndefined"
| "index0 (x # xs) = JString x"

text \<open>\<^verbatim>\<open>v || false\<close>.\<close>

definition or_false :: "jsval \<Rightarrow> jsval" where
  "or_false v = (if truthy v then v else JFalse)"

text \<open>The string carried by a value whose \<^verbatim>\<open>typeof\<close> is \<^verbatim>\<open>'string'\<close>.\<close>

fun string_of :: "jsval \<Rightarrow> string" where
  "string_of (JString s) = s"
| "string_of _ = []"

text \<open>
  A JavaScript \<^verbatim>\<open>Map\<close> with string keys keeps its entries in insertion order:
  \<^verbatim>\<open>set\<close> on a present key replaces the value in place, on an absent key appends
  the entry; \<^verbatim>\<open>delete\<close> removes the entry; \<^verbatim>\<open>get\<close> on an absent key is
  \<^verbatim>\<open>undefined\<close>; \<^verbatim>\<open>size\<close> counts the entries.
\<close>

type_synonym jsmap = "(string \<times> jsval) list"

definition Map_get :: "jsmap \<Rightarrow> string \<Rightarrow> jsval" where
  "Map_get m k = (case map_of m k of None \<Rightarrow> JUndefined | Some v \<Rightarrow> v)"

definition Map_set :: "jsmap \<Rightarrow> string \<Rightarrow> jsval \<Rightarrow> jsmap" where
  "Map_set m k v = AList.update k v m"

definition Map_delete :: "jsmap \<Rightarrow> string \<Rightarrow> jsmap" where
  "Map_delete m k = AList.delete k m"

definition Map_size :: "jsmap \<Rightarrow> nat" where
  "Map_size m = length m"

text \<open>\<^verbatim>\<open>Array.prototype.join\<close> on an array of strings.\<close>

fun join :: "string \<Rightarrow> string list \<Rightarrow> string" where
  "join sep [] = []"
| "join sep [x] = x"
| "join sep (x # y # ys) = x @ sep @ join sep (y # ys)"

section \<open>External collaborators\<close>

text \<open>
  The request object exposes a mapping from lower-cased header names to values; a header
  that was not sent has no entry.
\<close>

type_synonym headers = "string \<Rightarrow> string option"

record request =
  req_headers :: headers

text \<open>The value of a property read \<^verbatim>\<open>headers[name]\<close>.\<close>

fun header_val :: "string option \<Rightarrow> jsval" where
  "header_val None = JUndefined"
| "header_val (Some s) = JString s"

text \<open>
  The negotiation engine (package \<^verbatim>\<open>negotiator\<close>) is not part of this repository.
  It is taken as a parameter: one entry point per header family, each a function of the
  raw value of that family's header (absent or a string) and of the optional list of
  candidates, returning a ranked list.
\<close>

record engine =
  engine_mediaTypes :: "string option \<Rightarrow> string list option \<Rightarrow> string list"
  engine_encodings :: "string option \<Rightarrow> string list option \<Rightarrow> string list"
  engine_charsets :: "string option \<Rightarrow> string list option \<Rightarrow> string list"
  engine_languages :: "string option \<Rightarrow> string list option \<Rightarrow> string list"

text \<open>\<^verbatim>\<open>new Negotiator(req)\<close>: the engine bound to one request's headers.\<close>

record negotiator =
  mediaTypes :: "string list option \<Rightarrow> string list"
  neg_encodings :: "string list option \<Rightarrow> string list"
  neg_charsets :: "string list option \<Rightarrow> string list"
  neg_languages :: "string list option \<Rightarrow> string list"

definition Negotiator :: "engine \<Rightarrow> request \<Rightarrow> negotiator" where
  "Negotiator E req =
     \<lparr> mediaTypes = engine_mediaTypes E (req_headers req ''accept''),
       neg_encodings = engine_encodings E (req_headers req ''accept-encoding''),
       neg_charsets = engine_charsets E (req_headers req ''accept-charset''),
       neg_languages = engine_languages E (req_headers req ''accept-language'') \<rparr>"

text \<open>
  \<^verbatim>\<open>mime.lookup\<close> (package \<^verbatim>\<open>mime-types\<close>) is the second parameter: a table
  from a token to its media type, \<open>None\<close> standing for the \<^verbatim>\<open>false\<close> it returns on an
  unknown token.
\<close>

type_synonym mime_lookup = "string \<Rightarrow> string option"

fun lookup_val :: "string option \<Rightarrow> jsval" where
  "lookup_val None = JFalse"
| "lookup_val (Some m) = JString m"

section \<open>Module state and the Accepts object\<close>

text \<open>The two module-level maps \<^verbatim>\<open>negotiationCache\<close> and \<^verbatim>\<open>mimeCache\<close>.\<close>

record caches =
  negotiationCache :: jsmap
  mimeCache :: jsmap

definition CACHE_SIZE_LIMIT :: nat where
  "CACHE_SIZE_LIMIT = 1000"

definition initial_caches :: caches where
  "initial_caches = \<lparr> negotiationCache = [], mimeCache = [] \<rparr>"

record accepts =
  headers :: headers
  negotiator :: negotiator

definition Accepts :: "engine \<Rightarrow> request \<Rightarrow> accepts" where
  "Accepts E req = \<lparr> headers = req_headers req, negotiator = Negotiator E req \<rparr>"

section \<open>Private helpers of index.js\<close>

definition validMime :: "jsval \<Rightarrow> bool" where
  "validMime type = (case type of JString s \<Rightarrow> True | _ \<Rightarrow> False)"

definition extToMime :: "mime_lookup \<Rightarrow> string \<Rightarrow> jsval" where
  "extToMime lookup type =
     (if CHR ''/'' \<notin> set type then lookup_val (lookup type) else JString type)"

definition extToMimeCached :: "mime_lookup \<Rightarrow> string \<Rightarrow> jsmap \<Rightarrow> jsval \<times> jsmap" where
  "extToMimeCached lookup type mc =
     (if CHR ''/'' \<in> set type then (JString type, mc)
      else let cached = Map_get mc type in
        if cached \<noteq> JUndefined then (cached, mc)
        else let result = lookup_val (lookup type) in
          (result, Map_set mc type result))"

text \<open>
  \<^verbatim>\<open>clearCacheEntries\<close>: a live key iterator over the map and up to 100 rounds, each
  deleting the key the iterator yields and stopping when the iterator is done. The
  iterator visits the entries in insertion order and skips deleted ones; every entry it
  has visited is deleted at once, so the key it yields is that of the first remaining entry.
\<close>

fun clearCacheEntries_loop :: "nat \<Rightarrow> jsmap \<Rightarrow> jsmap" where
  "clearCacheEntries_loop 0 nc = nc"
| "clearCacheEntries_loop (Suc i) [] = []"
| "clearCacheEntries_loop (Suc i) ((k, v) # rest) =
     clearCacheEntries_loop i (Map_delete ((k, v) # rest) k)"

definition clearCacheEntries :: "jsmap \<Rightarrow> jsmap" where
  "clearCacheEntries nc = clearCacheEntries_loop 100 nc"

text \<open>
  The eviction loop written out inside \<^verbatim>\<open>types\<close> has no \<^verbatim>\<open>done\<close> test: on
  an exhausted iterator \<^verbatim>\<open>keys.next().value\<close> is \<^verbatim>\<open>undefined\<close>, and deleting
  \<^verbatim>\<open>undefined\<close> from a map whose keys are strings removes nothing.
\<close>

fun types_evict_loop :: "nat \<Rightarrow> jsmap \<Rightarrow> jsmap" where
  "types_evict_loop 0 nc = nc"
| "types_evict_loop (Suc j) [] = types_evict_loop j []"
| "types_evict_loop (Suc j) ((k, v) # rest) =
     types_evict_loop j (Map_delete ((k, v) # rest) k)"

section \<open>Argument normalisation\<close>

text \<open>
  A call passes its candidates either as one array or as separate string arguments.
\<close>

datatype call_args = Args_array "string list" | Args_variadic "string list"

text \<open>
  The value of the local variable after the block ``support flattened arguments'': the
  first argument when it is falsy or an array, otherwise the array of all arguments.
\<close>

fun flatten_arguments :: "call_args \<Rightarrow> jsval" where
  "flatten_arguments (Args_array ts) = JArray ts"
| "flatten_arguments (Args_variadic []) = JUndefined"
| "flatten_arguments (Args_variadic (t # ts)) =
     (if truthy (JString t) then JArray (t # ts) else JString t)"

text \<open>\<^verbatim>\<open>!types || types.length === 0\<close>.\<close>

fun no_candidates :: "jsval \<Rightarrow> bool" where
  "no_candidates (JArray ts) = (length ts = 0)"
| "no_candidates v = (\<not> truthy v)"

fun elems :: "jsval \<Rightarrow> string list" where
  "elems (JArray ts) = ts"
| "elems _ = []"

section \<open>The four negotiation operations\<close>

text \<open>
  The cache keys: \<^verbatim>\<open>this.headers.accept + '|' + types.join(',')\<close> in \<^verbatim>\<open>types\<close>,
  and \<^verbatim>\<open>'enc:' + header + '|' + encodings.join(',')\<close> in \<^verbatim>\<open>encodings\<close>, with
  \<^verbatim>\<open>'chr:'\<close> in \<^verbatim>\<open>charsets\<close> and \<^verbatim>\<open>'lng:'\<close> in \<^verbatim>\<open>languages\<close>.
\<close>

definition types_cacheKey :: "string \<Rightarrow> string list \<Rightarrow> string" where
  "types_cacheKey accept tys = accept @ ''|'' @ join '','' tys"

definition tagged_cacheKey :: "string \<Rightarrow> string \<Rightarrow> string list \<Rightarrow> string" where
  "tagged_cacheKey tag header cands = tag @ header @ ''|'' @ join '','' cands"

text \<open>
  The loop of \<^verbatim>\<open>types\<close> that resolves every candidate, collecting the valid media
  types in \<open>mimes\<close> and recording in \<open>mimeMap\<close> the candidate each one came from.
\<close>

fun types_resolve_loop ::
  "mime_lookup \<Rightarrow> string list \<Rightarrow> jsmap \<Rightarrow> string list \<Rightarrow> jsmap \<Rightarrow> jsmap \<times> string list \<times> jsmap" where
  "types_resolve_loop lookup [] mimeMap mimes mc = (mimeMap, mimes, mc)"
| "types_resolve_loop lookup (type # rest) mimeMap mimes mc =
     (let (mimeType, mc') = extToMimeCached lookup type mc in
      if validMime mimeType
      then types_resolve_loop lookup rest
             (Map_set mimeMap (string_of mimeType) (JString type))
             (mimes @ [string_of mimeType]) mc'
      else types_resolve_loop lookup rest mimeMap mimes mc')"

definition types :: "mime_lookup \<Rightarrow> accepts \<Rightarrow> call_args \<Rightarrow> caches \<Rightarrow> jsval \<times> caches" where
  "types lookup this args st =
     (let tys = flatten_arguments args in
      if no_candidates tys then (JArray (mediaTypes (negotiator this) None), st)
      else if \<not> truthy (header_val (headers this ''accept'')) then (index0 (elems tys), st)
      else if length (elems tys) = 1 then
        (let (singleMime, mc) = extToMimeCached lookup (hd (elems tys)) (mimeCache st);
             st1 = st\<lparr>mimeCache := mc\<rparr>
         in if \<not> validMime singleMime then (JFalse, st1)
            else let singleResult = mediaTypes (negotiator this) (Some [string_of singleMime])
                 in (if truthy (index0 singleResult) then index0 (elems tys) else JFalse, st1))
      else
        (let cacheKey = types_cacheKey (string_of (header_val (headers this ''accept''))) (elems tys);
             cached = Map_get (negotiationCache st) cacheKey
         in if cached \<noteq> JUndefined then (cached, st)
            else
              (let (mimeMap, mimes, mc) = types_resolve_loop lookup (elems tys) [] [] (mimeCache st);
                   accepts = mediaTypes (negotiator this) (Some mimes);
                   first = index0 accepts;
                   result = (if truthy first then Map_get mimeMap (string_of first) else JFalse);
                   nc = (if Map_size (negotiationCache st) \<ge> CACHE_SIZE_LIMIT
                         then types_evict_loop 100 (negotiationCache st)
                         else negotiationCache st)
               in (result, \<lparr> negotiationCache = Map_set nc cacheKey result, mimeCache = mc \<rparr>))))"

text \<open>
  \<^verbatim>\<open>encodings\<close>, \<^verbatim>\<open>charsets\<close> and \<^verbatim>\<open>languages\<close> have the same body up to the
  header read, the tag that starts the cache key and the engine entry point; the shared
  body is written once, with those three as arguments.
\<close>

definition tagged_negotiation ::
  "string \<Rightarrow> string option \<Rightarrow> (string list option \<Rightarrow> string list) \<Rightarrow> call_args \<Rightarrow> caches
     \<Rightarrow> jsval \<times> caches" where
  "tagged_negotiation tag hdr method args st =
     (let cands = flatten_arguments args in
      if no_candidates cands then (JArray (method None), st)
      else
        (let header = header_val hdr;
             cacheKey = tagged_cacheKey tag (string_of header) (elems cands);
             cached = (if truthy header then Map_get (negotiationCache st) cacheKey else JUndefined)
         in if truthy header \<and> cached \<noteq> JUndefined then (cached, st)
            else
              (let result = or_false (index0 (method (Some (elems cands))))
               in if truthy header
                  then (result,
                        st\<lparr>negotiationCache :=
                             Map_set (if Map_size (negotiationCache st) \<ge> CACHE_SIZE_LIMIT
                                      then clearCacheEntries (negotiationCache st)
                                      else negotiationCache st) cacheKey result\<rparr>)
                  else (result, st))))"

definition encodings :: "accepts \<Rightarrow> call_args \<Rightarrow> caches \<Rightarrow> jsval \<times> caches" where
  "encodings this args st =
     tagged_negotiation ''enc:'' (headers this ''accept-encoding'')
       (neg_encodings (negotiator this)) args st"

definition charsets :: "accepts \<Rightarrow> call_args \<Rightarrow> caches \<Rightarrow> jsval \<times> caches" where
  "charsets this args st =
     tagged_negotiation ''chr:'' (headers this ''accept-charset'')
       (neg_charsets (negotiator this)) args st"

definition languages :: "accepts \<Rightarrow> call_args \<Rightarrow> caches \<Rightarrow> jsval \<times> caches" where
  "languages this args st =
     tagged_negotiation ''lng:'' (headers this ''accept-language'')
       (neg_languages (negotiator this)) args st"

section \<open>Sequences of calls\<close>

text \<open>
  A call names the operation, the request the context is built from and the arguments;
  every call builds its own context with \<open>Accepts\<close>, and all calls share the two
  module-level maps.
\<close>

datatype operation = Op_types | Op_encodings | Op_charsets | Op_languages

type_synonym call = "operation \<times> request \<times> call_args"

fun perform :: "engine \<Rightarrow> mime_lookup \<Rightarrow> call \<Rightarrow> caches \<Rightarrow> jsval \<times> caches" where
  "perform E lookup (Op_types, req, args) st = types lookup (Accepts E req) args st"
| "perform E lookup (Op_encodings, req, args) st = encodings (Accepts E req) args st"
| "perform E lookup (Op_charsets, req, args) st = charsets (Accepts E req) args st"
| "perform E lookup (Op_languages, req, args) st = languages (Accepts E req) args st"

fun run :: "engine \<Rightarrow> mime_lookup \<Rightarrow> call list \<Rightarrow> caches \<Rightarrow> jsval list \<times> caches" where
  "run E lookup [] st = ([], st)"
| "run E lookup (c # cs) st =
     (let (r, st1) = perform E lookup c st;
          (rs, st2) = run E lookup cs st1
      in (r # rs, st2))"

text \<open>The key under which a call of each family stores its outcome.\<close>

fun cache_key :: "operation \<Rightarrow> string \<Rightarrow> string list \<Rightarrow> string" where
  "cache_key Op_types h cs = types_cacheKey h cs"
| "cache_key Op_encodings h cs = tagged_cacheKey ''enc:'' h cs"
| "cache_key Op_charsets h cs = tagged_cacheKey ''chr:'' h cs"
| "cache_key Op_languages h cs = tagged_cacheKey ''lng:'' h cs"

section \<open>Concrete collaborators for evaluation\<close>

text \<open>
  Two small instances of the external collaborators, used to evaluate the operations at
  concrete inputs: an engine for a client that accepts everything (it returns the
  candidates as offered, and the single range \<^verbatim>\<open>*/*\<close> when asked without
  candidates), and a lookup table with three extensions.
\<close>

definition echo_engine :: engine where
  "echo_engine =
     \<lparr> engine_mediaTypes = (\<lambda>h cs. case cs of None \<Rightarrow> [''*/*''] | Some xs \<Rightarrow> xs),
       engine_encodings = (\<lambda>h cs. case cs of None \<Rightarrow> [''*''] | Some xs \<Rightarrow> xs),
       engine_charsets = (\<lambda>h cs. case cs of None \<Rightarrow> [''*''] | Some xs \<Rightarrow> xs),
       engine_languages = (\<lambda>h cs. case cs of None \<Rightarrow> [''*''] | Some xs \<Rightarrow> xs) \<rparr>"

definition sample_lookup :: mime_lookup where
  "sample_lookup t =
     (if t = ''html'' then Some ''text/html''
      else if t = ''json'' then Some ''application/json''
      else if t = ''text'' then Some ''text/plain''
      else None)"

definition request_with :: "string \<Rightarrow> string \<Rightarrow> request" where
  "request_with name v = \<lparr> req_headers = (\<lambda>n. if n = name then Some v else None) \<rparr>"

definition bare_request :: request where
  "bare_request = \<lparr> req_headers = (\<lambda>n. None) \<rparr>"

section \<open>Side conditions used by the theorems\<close>

text \<open>
  The resolver cache agrees with the lookup table when every entry holds what
  \<^verbatim>\<open>mime.lookup\<close> returns for its key. The empty cache does, and \<open>extToMimeCached\<close>
  only ever adds such entries.
\<close>

definition mimeCache_agrees :: "mime_lookup \<Rightarrow> jsmap \<Rightarrow> bool" where
  "mimeCache_agrees lookup mc = list_all (\<lambda>(k, v). v = lookup_val (lookup k)) mc"

text \<open>
  The media types handed to the engine by the general path of \<^verbatim>\<open>types\<close>: every
  candidate resolved, the invalid ones dropped, caller order kept.
\<close>

definition resolved_mimes :: "mime_lookup \<Rightarrow> string list \<Rightarrow> string list" where
  "resolved_mimes lookup ts = map string_of (filter validMime (map (extToMime lookup) ts))"

text \<open>
  What the general path of \<^verbatim>\<open>types\<close> computes on a cache miss, as a function of the
  engine's answer, the lookup table and the candidates: \<^verbatim>\<open>false\<close> when the first
  element of the engine's answer is falsy, otherwise the entry of \<open>mimeMap\<close> for it,
  which is the last candidate that resolved to it (\<^verbatim>\<open>undefined\<close> if none did).
\<close>

definition types_outcome ::
  "mime_lookup \<Rightarrow> (string list option \<Rightarrow> string list) \<Rightarrow> string list \<Rightarrow> jsval" where
  "types_outcome lookup method ts =
     (let first = index0 (method (Some (resolved_mimes lookup ts)))
      in if truthy first
         then (case filter (\<lambda>t. extToMime lookup t = first) ts of
                 [] \<Rightarrow> JUndefined
               | c # cs \<Rightarrow> JString (last (c # cs)))
         else JFalse)"

text \<open>
  The conditions under which a cache key determines the call it came from: the header
  value holds no \<^verbatim>\<open>|\<close>, the candidate sequence is non-empty and no token holds a
  comma, and an Accept header value does not begin with the tag of another family.
\<close>

definition key_safe_header :: "string \<Rightarrow> bool" where
  "key_safe_header h = (CHR ''|'' \<notin> set h)"

definition key_safe_tokens :: "string list \<Rightarrow> bool" where
  "key_safe_tokens cs = (cs \<noteq> [] \<and> list_all (\<lambda>t. CHR '','' \<notin> set t) cs)"

definition carries_tag :: "string \<Rightarrow> bool" where
  "carries_tag h = (take 4 h = ''enc:'' \<or> take 4 h = ''chr:'' \<or> take 4 h = ''lng:'')"

text \<open>
  Which calls go through the result cache, and what a miss computes. \<open>cached_call\<close>
  gives the family, the header value and the candidate sequence of a call that reaches
  the cache lookup (a truthy header, at least one candidate, and at least two for
  \<^verbatim>\<open>types\<close>); \<open>outcome\<close> is the value such a call computes from the engine's answer.
\<close>

fun header_name :: "operation \<Rightarrow> string" where
  "header_name Op_types = ''accept''"
| "header_name Op_encodings = ''accept-encoding''"
| "header_name Op_charsets = ''accept-charset''"
| "header_name Op_languages = ''accept-language''"

fun family_tag :: "operation \<Rightarrow> string" where
  "family_tag Op_types = []"
| "family_tag Op_encodings = ''enc:''"
| "family_tag Op_charsets = ''chr:''"
| "family_tag Op_languages = ''lng:''"

fun cached_call :: "call \<Rightarrow> (operation \<times> string \<times> string list) option" where
  "cached_call (f, req, args) =
     (case flatten_arguments args of
        JArray cs \<Rightarrow>
          (case req_headers req (header_name f) of
             Some h \<Rightarrow>
               if cs \<noteq> [] \<and> h \<noteq> [] \<and> (if f = Op_types then 2 \<le> length cs else True)
               then Some (f, h, cs) else None
           | None \<Rightarrow> None)
      | _ \<Rightarrow> None)"

fun outcome :: "engine \<Rightarrow> mime_lookup \<Rightarrow> operation \<Rightarrow> string \<Rightarrow> string list \<Rightarrow> jsval" where
  "outcome E lookup Op_types h cs = types_outcome lookup (engine_mediaTypes E (Some h)) cs"
| "outcome E lookup Op_encodings h cs = or_false (index0 (engine_encodings E (Some h) (Some cs)))"
| "outcome E lookup Op_charsets h cs = or_false (index0 (engine_charsets E (Some h) (Some cs)))"
| "outcome E lookup Op_languages h cs = or_false (index0 (engine_languages E (Some h) (Some cs)))"

text \<open>
  The contract of the engine for a call with candidates: it returns the subset of the
  candidates that the client accepts, so every element of the answer is a candidate it
  was given.
\<close>

definition engine_answers_offered :: "engine \<Rightarrow> bool" where
  "engine_answers_offered E =
     (\<forall>h cs. set (engine_mediaTypes E h (Some cs)) \<subseteq> set cs
           \<and> set (engine_encodings E h (Some cs)) \<subseteq> set cs
           \<and> set (engine_charsets E h (Some cs)) \<subseteq> set cs
           \<and> set (engine_languages E h (Some cs)) \<subseteq> set cs)"

text \<open>
  The shape every reachable module state has: the resolver cache agrees with the lookup
  table, the result cache has one entry per key and at most \<open>CACHE_SIZE_LIMIT\<close> entries.
\<close>

definition caches_ok :: "mime_lookup \<Rightarrow> caches \<Rightarrow> bool" where
  "caches_ok lookup st =
     (mimeCache_agrees lookup (mimeCache st)
      \<and> distinct (map fst (negotiationCache st))
      \<and> Map_size (negotiationCache st) \<le> CACHE_SIZE_LIMIT)"

text \<open>
  Two properties of the entries of the result cache: every value is \<^verbatim>\<open>false\<close> or one
  of the candidates of a call with that key; and every entry whose key determines its
  call holds the outcome of that call.
\<close>

definition cache_values_ok :: "jsmap \<Rightarrow> bool" where
  "cache_values_ok nc =
     list_all (\<lambda>(k, v). v = JFalse \<or> (\<exists>f h cs t. k = cache_key f h cs \<and> t \<in> set cs \<and> v = JString t)) nc"

definition key_safe :: "operation \<Rightarrow> string \<Rightarrow> string list \<Rightarrow> bool" where
  "key_safe f h cs =
     (key_safe_header h \<and> key_safe_tokens cs \<and> (if f = Op_types then \<not> carries_tag h else True))"

definition cache_sound :: "engine \<Rightarrow> mime_lookup \<Rightarrow> jsmap \<Rightarrow> bool" where
  "cache_sound E lookup nc =
     list_all (\<lambda>(k, v). \<forall>f h cs. key_safe f h cs \<and> cache_key f h cs = k \<longrightarrow> v = outcome E lookup f h cs) nc"

text \<open>
  A family of calls with pairwise different keys, used to fill the result cache:
  the \<open>i\<close>-th call offers the single encoding made of \<open>i + 1\<close> letters.
\<close>

definition fill_call :: "nat \<Rightarrow> call" where
  "fill_call i =
     (Op_encodings, request_with ''accept-encoding'' ''gzip'', Args_array [replicate (Suc i) (CHR ''a'')])"

definition fill_calls :: "nat \<Rightarrow> call list" where
  "fill_calls n = map fill_call [0..<n]"

text \<open>A call whose cache key, if it has one, determines it.\<close>

definition key_safe_call :: "call \<Rightarrow> bool" where
  "key_safe_call c =
     (case cached_call c of None \<Rightarrow> True | Some (f, h, cs) \<Rightarrow> key_safe f h cs)"

section \<open>The fast paths of types\<close>

lemma flatten_supplied:
  "args = Args_array (t # ts) \<or> (args = Args_variadic (t # ts) \<and> t \<noteq> []) \<Longrightarrow>
   flatten_arguments args = JArray (t # ts)"
  by auto

text \<open>
  C6, as stated, fails when the candidates are passed as separate arguments and the
  first is the empty string: with no Accept header, \<^verbatim>\<open>types('', 'html')\<close> takes the
  branch \<^verbatim>\<open>!types\<close>, calls the engine without candidates and returns its list
  instead of the first candidate.
\<close>

theorem types_absent_header_counterexample:
  "headers (Accepts echo_engine bare_request) ''accept'' = None
   \<and> fst (types sample_lookup (Accepts echo_engine bare_request)
            (Args_variadic ['''', ''html'']) initial_caches)
       = JArray (mediaTypes (negotiator (Accepts echo_engine bare_request)) None)
   \<and> mediaTypes (negotiator (Accepts echo_engine bare_request)) None = [''*/*'']"
  by (simp add: types_def Accepts_def bare_request_def Negotiator_def echo_engine_def)

text \<open>
  C6, amended. With no Accept header on the request and at least one candidate supplied
  either in an array or as separate arguments of which the first is a non-empty string,
  \<open>types\<close> returns the first candidate as it was passed, whatever the engine and the
  lookup table are, and leaves both module-level maps as they were.
\<close>

theorem types_absent_header_first_candidate:
  assumes "headers this ''accept'' = None"
    and "args = Args_array (t # ts) \<or> (args = Args_variadic (t # ts) \<and> t \<noteq> [])"
  shows "types lookup this args st = (JString t, st)"
  using assms(1) flatten_supplied [OF assms(2)] by (simp add: types_def)

theorem types_absent_header_first_candidate_witness:
  "headers (Accepts echo_engine bare_request) ''accept'' = None
   \<and> types sample_lookup (Accepts echo_engine bare_request) (Args_array [''html'', ''json''])
         initial_caches = (JString ''html'', initial_caches)
   \<and> types sample_lookup (Accepts echo_engine bare_request) (Args_variadic [''html'', ''json''])
         initial_caches = (JString ''html'', initial_caches)"
  using types_absent_header_first_candidate
          [of "Accepts echo_engine bare_request" "Args_array [''html'', ''json'']" "''html''"
              "[''json'']" sample_lookup initial_caches]
        types_absent_header_first_candidate
          [of "Accepts echo_engine bare_request" "Args_variadic [''html'', ''json'']" "''html''"
              "[''json'']" sample_lookup initial_caches]
  by (simp add: Accepts_def bare_request_def)

text \<open>
  C9, as stated, fails when the candidates are passed as separate arguments and the
  first is the empty string: with an empty Accept header, \<^verbatim>\<open>types('', 'html')\<close> takes
  the branch \<^verbatim>\<open>!types\<close> before the header is looked at, calls the engine without
  candidates and returns its list.
\<close>

theorem types_empty_header_counterexample:
  "headers (Accepts echo_engine (request_with ''accept'' [])) ''accept'' = Some []
   \<and> fst (types sample_lookup (Accepts echo_engine (request_with ''accept'' []))
            (Args_variadic ['''', ''html'']) initial_caches)
       = JArray (mediaTypes (negotiator (Accepts echo_engine (request_with ''accept'' []))) None)
   \<and> mediaTypes (negotiator (Accepts echo_engine (request_with ''accept'' []))) None = [''*/*'']"
  by (simp add: types_def Accepts_def request_with_def Negotiator_def echo_engine_def)

text \<open>
  C9, amended. A request whose Accept header is present but is the empty string takes
  the fast path of a request without the header: when at least one candidate is supplied
  either in an array or as separate arguments of which the first is a non-empty string,
  \<open>types\<close> returns the first candidate, whatever the engine and the lookup table are,
  and leaves both module-level maps as they were.
\<close>

theorem types_empty_header_first_candidate:
  assumes "headers this ''accept'' = Some []"
    and "args = Args_array (t # ts) \<or> (args = Args_variadic (t # ts) \<and> t \<noteq> [])"
  shows "types lookup this args st = (JString t, st)"
  using assms(1) flatten_supplied [OF assms(2)] by (simp add: types_def)

theorem types_empty_header_first_candidate_witness:
  "headers (Accepts echo_engine (request_with ''accept'' [])) ''accept'' = Some []
   \<and> types sample_lookup (Accepts echo_engine (request_with ''accept'' []))
         (Args_array [''html'', ''json'']) initial_caches = (JString ''html'', initial_caches)"
  using types_empty_header_first_candidate
          [of "Accepts echo_engine (request_with ''accept'' [])" "Args_array [''html'', ''json'']"
              "''html''" "[''json'']" sample_lookup initial_caches]
  by (simp add: Accepts_def request_with_def)

text \<open>
  C7, as stated, fails in two places. Where the Accept header is present but empty, the
  test \<^verbatim>\<open>!this.headers.accept\<close> sends the request down the fast path of C9, so a single
  candidate that resolves to no media type is returned instead of \<^verbatim>\<open>false\<close>. And
  where the one candidate is the empty string passed as a separate argument,
  \<^verbatim>\<open>types('')\<close> takes the branch \<^verbatim>\<open>!types\<close> and returns the list the engine gives
  without candidates, although the lookup table knows no media type for it.
\<close>

theorem types_single_candidate_counterexample:
  "headers (Accepts echo_engine (request_with ''accept'' [])) ''accept'' = Some []
   \<and> \<not> validMime (fst (extToMimeCached sample_lookup ''png'' (mimeCache initial_caches)))
   \<and> fst (types sample_lookup (Accepts echo_engine (request_with ''accept'' []))
            (Args_array [''png'']) initial_caches) = JString ''png''
   \<and> headers (Accepts echo_engine (request_with ''accept'' ''text/html'')) ''accept''
       = Some ''text/html''
   \<and> \<not> validMime (fst (extToMimeCached sample_lookup '''' (mimeCache initial_caches)))
   \<and> fst (types sample_lookup (Accepts echo_engine (request_with ''accept'' ''text/html''))
            (Args_variadic ['''']) initial_caches) = JArray [''*/*'']"
  by (simp add: types_def Accepts_def request_with_def extToMimeCached_def validMime_def
        sample_lookup_def initial_caches_def Map_get_def Negotiator_def echo_engine_def)

text \<open>
  C7, amended. With exactly one candidate, supplied either in an array or as a separate
  argument that is a non-empty string, and an Accept header that is present and not
  the empty string: the candidate is resolved by \<open>extToMimeCached\<close>; when the resolved
  value is not a string the call returns \<^verbatim>\<open>false\<close>; otherwise the engine is called
  with the singleton list of the resolved media type, and the call returns the candidate
  as passed when the first element of the engine's answer is truthy and \<^verbatim>\<open>false\<close>
  otherwise. The result cache is not written (it is the same afterwards) and not read
  (the result is the same whatever the result cache holds).
\<close>

theorem types_single_candidate:
  assumes "headers this ''accept'' = Some h" and "h \<noteq> []"
    and "args = Args_array [t] \<or> (args = Args_variadic [t] \<and> t \<noteq> [])"
  shows "fst (types lookup this args st) =
           (let m = fst (extToMimeCached lookup t (mimeCache st)) in
            if \<not> validMime m then JFalse
            else if truthy (index0 (mediaTypes (negotiator this) (Some [string_of m])))
                 then JString t else JFalse)
         \<and> negotiationCache (snd (types lookup this args st)) = negotiationCache st
         \<and> fst (types lookup this args (st\<lparr>negotiationCache := nc\<rparr>))
             = fst (types lookup this args st)"
  using assms(1,2) flatten_supplied [OF assms(3)]
  by (simp add: types_def Let_def split: prod.splits)

theorem types_single_candidate_witness:
  "headers (Accepts echo_engine (request_with ''accept'' ''text/html'')) ''accept''
     = Some ''text/html''
   \<and> ''text/html'' \<noteq> []
   \<and> fst (types sample_lookup (Accepts echo_engine (request_with ''accept'' ''text/html''))
            (Args_array [''html'']) initial_caches) = JString ''html''
   \<and> fst (types sample_lookup (Accepts echo_engine (request_with ''accept'' ''text/html''))
            (Args_array [''png'']) initial_caches) = JFalse
   \<and> negotiationCache (snd (types sample_lookup
            (Accepts echo_engine (request_with ''accept'' ''text/html''))
            (Args_array [''html'']) initial_caches)) = []"
  using types_single_candidate
          [of "Accepts echo_engine (request_with ''accept'' ''text/html'')" "''text/html''"
              "Args_array [''html'']" "''html''" sample_lookup initial_caches "[]"]
        types_single_candidate
          [of "Accepts echo_engine (request_with ''accept'' ''text/html'')" "''text/html''"
              "Args_array [''png'']" "''png''" sample_lookup initial_caches "[]"]
  by (simp add: Accepts_def request_with_def extToMimeCached_def validMime_def Let_def
        sample_lookup_def initial_caches_def Map_get_def Negotiator_def echo_engine_def)

section \<open>Array and variadic arguments\<close>

text \<open>
  C4, as stated, fails when the first of several separate arguments is the empty string:
  the guard \<^verbatim>\<open>types && !Array.isArray(types)\<close> leaves the falsy first argument in
  place, and the call answers as if no candidate had been passed, while the same tokens
  in one array are negotiated.
\<close>

theorem variadic_array_counterexample:
  "types sample_lookup (Accepts echo_engine bare_request) (Args_variadic ['''', ''html''])
     initial_caches
   \<noteq> types sample_lookup (Accepts echo_engine bare_request) (Args_array ['''', ''html''])
       initial_caches"
  by (simp add: types_def Accepts_def bare_request_def)

lemma variadic_no_candidates:
  "ts = [] \<or> hd ts \<noteq> [] \<Longrightarrow>
   no_candidates (flatten_arguments (Args_variadic ts))
     = no_candidates (flatten_arguments (Args_array ts))
   \<and> elems (flatten_arguments (Args_variadic ts)) = elems (flatten_arguments (Args_array ts))"
  by (cases ts) auto

lemma tagged_negotiation_variadic:
  "ts = [] \<or> hd ts \<noteq> [] \<Longrightarrow>
   tagged_negotiation tag hdr method (Args_variadic ts) st
     = tagged_negotiation tag hdr method (Args_array ts) st"
  using variadic_no_candidates [of ts] by (cases ts) (simp_all add: tagged_negotiation_def Let_def)

text \<open>
  C4, amended. For each of the four operations and every token sequence that is empty
  or starts with a non-empty token, passing the tokens as separate arguments and passing
  them as one array give the same result and the same caches.
\<close>

theorem variadic_equals_array:
  assumes "ts = [] \<or> hd ts \<noteq> []"
  shows "types lookup this (Args_variadic ts) st = types lookup this (Args_array ts) st
    \<and> encodings this (Args_variadic ts) st = encodings this (Args_array ts) st
    \<and> charsets this (Args_variadic ts) st = charsets this (Args_array ts) st
    \<and> languages this (Args_variadic ts) st = languages this (Args_array ts) st"
proof -
  have "types lookup this (Args_variadic ts) st = types lookup this (Args_array ts) st"
    using assms by (cases ts) (simp_all add: types_def Let_def)
  then show ?thesis
    using tagged_negotiation_variadic [OF assms]
    by (simp add: encodings_def charsets_def languages_def)
qed

theorem variadic_equals_array_witness:
  "hd [''gzip'', ''deflate''] \<noteq> []
   \<and> encodings (Accepts echo_engine (request_with ''accept-encoding'' ''gzip''))
        (Args_variadic [''gzip'', ''deflate'']) initial_caches
     = encodings (Accepts echo_engine (request_with ''accept-encoding'' ''gzip''))
        (Args_array [''gzip'', ''deflate'']) initial_caches
   \<and> types sample_lookup (Accepts echo_engine bare_request) (Args_variadic []) initial_caches
     = types sample_lookup (Accepts echo_engine bare_request) (Args_array []) initial_caches"
  using variadic_equals_array
          [of "[''gzip'', ''deflate'']" sample_lookup
              "Accepts echo_engine (request_with ''accept-encoding'' ''gzip'')" initial_caches]
        variadic_equals_array
          [of "[]" sample_lookup "Accepts echo_engine bare_request" initial_caches]
  by simp

section \<open>The resolver cache and the general path of types\<close>

lemma Map_get_set: "Map_get (Map_set m k v) k' = (if k' = k then v else Map_get m k')"
  by (simp add: Map_get_def Map_set_def update_conv')

lemma mimeCache_agrees_get:
  "mimeCache_agrees lookup mc \<Longrightarrow> Map_get mc k \<noteq> JUndefined \<Longrightarrow>
   Map_get mc k = lookup_val (lookup k)"
  by (auto simp: mimeCache_agrees_def Map_get_def list_all_iff split: option.splits
      dest!: map_of_SomeD)

lemma mimeCache_agrees_set:
  "mimeCache_agrees lookup mc \<Longrightarrow> mimeCache_agrees lookup (Map_set mc k (lookup_val (lookup k)))"
  unfolding mimeCache_agrees_def Map_set_def
  by (induction mc) auto

lemma extToMimeCached_agrees:
  assumes "mimeCache_agrees lookup mc"
  shows "fst (extToMimeCached lookup t mc) = extToMime lookup t"
    and "mimeCache_agrees lookup (snd (extToMimeCached lookup t mc))"
  using assms mimeCache_agrees_get [OF assms, of t] mimeCache_agrees_set [OF assms, of t]
  by (auto simp: extToMimeCached_def extToMime_def Let_def)

lemma validMime_iff: "validMime v \<longleftrightarrow> (\<exists>s. v = JString s)"
  by (cases v) (simp_all add: validMime_def)

lemma types_resolve_loop_agrees:
  assumes "mimeCache_agrees lookup mc"
    and "types_resolve_loop lookup ts mm ms mc = (mm', ms', mc')"
  shows "ms' = ms @ resolved_mimes lookup ts \<and> mimeCache_agrees lookup mc'
    \<and> (\<forall>m. Map_get mm' m =
          (if filter (\<lambda>t. extToMime lookup t = JString m) ts = [] then Map_get mm m
           else JString (last (filter (\<lambda>t. extToMime lookup t = JString m) ts))))"
  using assms
proof (induction ts arbitrary: mm ms mc)
  case Nil
  then show ?case by (simp add: resolved_mimes_def)
next
  case (Cons t ts)
  obtain v mc1 where e: "extToMimeCached lookup t mc = (v, mc1)" by force
  have v: "v = extToMime lookup t" and a1: "mimeCache_agrees lookup mc1"
    using extToMimeCached_agrees [OF Cons.prems(1), of t] e by simp_all
  show ?case
  proof (cases "validMime v")
    case True
    then obtain s where s: "v = JString s" by (auto simp: validMime_iff)
    have step: "types_resolve_loop lookup ts (Map_set mm s (JString t)) (ms @ [s]) mc1 = (mm', ms', mc')"
      using Cons.prems(2) e True s by simp
    have es: "extToMime lookup t = JString s" using v s by simp
    from Cons.IH [OF a1 step] show ?thesis
      by (auto simp: resolved_mimes_def Map_get_set es validMime_def)
  next
    case False
    have step: "types_resolve_loop lookup ts mm ms mc1 = (mm', ms', mc')"
      using Cons.prems(2) e False by simp
    have nv: "\<not> validMime (extToMime lookup t)" using v False by simp
    from Cons.IH [OF a1 step] nv show ?thesis
      by (auto simp: resolved_mimes_def validMime_iff)
  qed
qed


lemma index0_truthy: "truthy (index0 xs) \<Longrightarrow> index0 xs = JString (string_of (index0 xs))"
  by (cases xs) simp_all

lemma types_general_miss:
  assumes hdr: "headers this ''accept'' = Some h" "h \<noteq> []"
    and flat: "flatten_arguments args = JArray ts" and len: "2 \<le> length ts"
    and agrees: "mimeCache_agrees lookup (mimeCache st)"
    and miss: "Map_get (negotiationCache st) (types_cacheKey h ts) = JUndefined"
  shows "\<exists>mc'. mimeCache_agrees lookup mc' \<and>
           types lookup this args st =
             (types_outcome lookup (mediaTypes (negotiator this)) ts,
              \<lparr> negotiationCache =
                   Map_set (if Map_size (negotiationCache st) \<ge> CACHE_SIZE_LIMIT
                            then types_evict_loop 100 (negotiationCache st)
                            else negotiationCache st) (types_cacheKey h ts)
                     (types_outcome lookup (mediaTypes (negotiator this)) ts),
                 mimeCache = mc' \<rparr>)"
proof -
  obtain mm ms mc' where loop: "types_resolve_loop lookup ts [] [] (mimeCache st) = (mm, ms, mc')"
    by (metis prod_cases3)
  from types_resolve_loop_agrees [OF agrees loop]
  have ms: "ms = resolved_mimes lookup ts" and a': "mimeCache_agrees lookup mc'"
    and mm: "\<And>m. Map_get mm m =
          (if filter (\<lambda>t. extToMime lookup t = JString m) ts = [] then JUndefined
           else JString (last (filter (\<lambda>t. extToMime lookup t = JString m) ts)))"
    by (simp_all add: Map_get_def)
  define first where "first = index0 (mediaTypes (negotiator this) (Some (resolved_mimes lookup ts)))"
  have res: "(if truthy first then Map_get mm (string_of first) else JFalse)
               = types_outcome lookup (mediaTypes (negotiator this)) ts"
  proof (cases "truthy first")
    case True
    then have f: "first = JString (string_of first)"
      unfolding first_def by (rule index0_truthy)
    show ?thesis
      using True mm [of "string_of first"] f
      by (simp add: types_outcome_def first_def [symmetric] split: list.splits)
  next
    case False
    then show ?thesis by (simp add: types_outcome_def first_def [symmetric])
  qed
  have ne: "ts \<noteq> []" "length ts \<noteq> 1" using len by auto
  have "types lookup this args st =
          ((if truthy first then Map_get mm (string_of first) else JFalse),
              \<lparr> negotiationCache =
                   Map_set (if Map_size (negotiationCache st) \<ge> CACHE_SIZE_LIMIT
                            then types_evict_loop 100 (negotiationCache st)
                            else negotiationCache st) (types_cacheKey h ts)
                     (if truthy first then Map_get mm (string_of first) else JFalse),
                 mimeCache = mc' \<rparr>)"
    using hdr flat ne miss loop ms
    by (simp add: types_def Let_def first_def)
  with res a' show ?thesis by auto
qed


text \<open>
  C3, as stated, fails: \<^verbatim>\<open>mimeMap.set(mimeType, type)\<close> runs for every valid
  candidate and replaces the entry of an earlier candidate with the same media type, so
  the candidate returned is the last one listed, not the first.
\<close>

theorem types_first_occurrence_counterexample:
  "extToMime sample_lookup ''text/html'' = extToMime sample_lookup ''html''
   \<and> fst (types sample_lookup (Accepts echo_engine (request_with ''accept'' ''text/html''))
            (Args_array [''text/html'', ''html'']) initial_caches) = JString ''html''"
  by (simp add: types_def Accepts_def request_with_def extToMimeCached_def validMime_def Let_def
        sample_lookup_def initial_caches_def Map_get_def Map_set_def Negotiator_def
        echo_engine_def extToMime_def types_cacheKey_def Map_size_def CACHE_SIZE_LIMIT_def)

text \<open>
  C3, amended. In the general path of \<open>types\<close> (two or more candidates, a non-empty
  Accept header, no cached outcome, a resolver cache that agrees with the lookup table):
  when the engine's first answer is the non-empty media type \<open>m\<close> and some candidate
  resolves to \<open>m\<close>, the call returns the last candidate in caller order that resolves
  to \<open>m\<close>.
\<close>

theorem types_returns_last_resolving_candidate:
  assumes "headers this ''accept'' = Some h" and "h \<noteq> []"
    and "args = Args_array ts \<or> (args = Args_variadic ts \<and> hd ts \<noteq> [])"
    and "2 \<le> length ts"
    and "mimeCache_agrees lookup (mimeCache st)"
    and "Map_get (negotiationCache st) (types_cacheKey h ts) = JUndefined"
    and "index0 (mediaTypes (negotiator this) (Some (resolved_mimes lookup ts))) = JString m"
    and "m \<noteq> []"
    and "t \<in> set ts" and "extToMime lookup t = JString m"
  shows "fst (types lookup this args st)
           = JString (last (filter (\<lambda>c. extToMime lookup c = JString m) ts))"
proof -
  have flat: "flatten_arguments args = JArray ts"
    using assms(3,4) by (cases ts) auto
  have ne: "filter (\<lambda>c. extToMime lookup c = JString m) ts \<noteq> []"
    using assms(9,10) by (auto simp: filter_empty_conv)
  from types_general_miss [OF assms(1,2) flat assms(4,5,6)]
  have "fst (types lookup this args st) = types_outcome lookup (mediaTypes (negotiator this)) ts" by auto
  also have "\<dots> = JString (last (filter (\<lambda>c. extToMime lookup c = JString m) ts))"
    using assms(7,8) ne by (simp add: types_outcome_def split: list.splits)
  finally show ?thesis .
qed

theorem types_returns_last_resolving_candidate_witness:
  "fst (types sample_lookup (Accepts echo_engine (request_with ''accept'' ''text/html''))
          (Args_array [''text/html'', ''html'', ''json'']) initial_caches)
     = JString (last (filter (\<lambda>c. extToMime sample_lookup c = JString ''text/html'')
                        [''text/html'', ''html'', ''json'']))
   \<and> last (filter (\<lambda>c. extToMime sample_lookup c = JString ''text/html'')
                        [''text/html'', ''html'', ''json'']) = ''html''"
proof -
  have "fst (types sample_lookup (Accepts echo_engine (request_with ''accept'' ''text/html''))
          (Args_array [''text/html'', ''html'', ''json'']) initial_caches)
     = JString (last (filter (\<lambda>c. extToMime sample_lookup c = JString ''text/html'')
                        [''text/html'', ''html'', ''json'']))"
    by (rule types_returns_last_resolving_candidate
              [where h = "''text/html''" and t = "''html''"])
       (simp_all add: Accepts_def request_with_def initial_caches_def mimeCache_agrees_def
          Map_get_def resolved_mimes_def extToMime_def sample_lookup_def validMime_def
          Negotiator_def echo_engine_def)
  then show ?thesis
    by (simp add: extToMime_def sample_lookup_def)
qed

section \<open>Cache keys\<close>

lemma append_sep_eq:
  "c \<notin> set a \<Longrightarrow> c \<notin> set b \<Longrightarrow> a @ c # x = b @ c # y \<Longrightarrow> a = b \<and> x = y"
proof (induction a arbitrary: b)
  case Nil
  then show ?case by (cases b) auto
next
  case (Cons u a)
  then show ?case by (cases b) auto
qed

lemma join_comma_inj:
  assumes "list_all (\<lambda>t. CHR '','' \<notin> set t) c1" and "list_all (\<lambda>t. CHR '','' \<notin> set t) c2"
    and "c1 \<noteq> []" and "c2 \<noteq> []"
    and "join '','' c1 = join '','' c2"
  shows "c1 = c2"
  using assms
proof (induction c1 arbitrary: c2)
  case Nil
  then show ?case by simp
next
  case (Cons x xs)
  then obtain y ys where c2: "c2 = y # ys" by (cases c2) auto
  have fx: "CHR '','' \<notin> set x" and fy: "CHR '','' \<notin> set y"
    using Cons.prems(1,2) c2 by simp_all
  show ?case
  proof (cases xs)
    case Nil
    note xs = Nil
    show ?thesis
    proof (cases ys)
      case Nil
      with xs c2 Cons.prems(5) show ?thesis by simp
    next
      case (Cons z zs)
      with xs c2 Cons.prems(5) have "x = y @ CHR '','' # join '','' (z # zs)" by simp
      with fx show ?thesis by auto
    qed
  next
    case (Cons x' xs')
    note xs = Cons
    show ?thesis
    proof (cases ys)
      case Nil
      with xs c2 Cons.prems(5) have "y = x @ CHR '','' # join '','' (x' # xs')" by simp
      with fy show ?thesis by auto
    next
      case (Cons z zs)
      with xs c2 Cons.prems(5)
      have "x @ CHR '','' # join '','' xs = y @ CHR '','' # join '','' ys" by simp
      from append_sep_eq [OF fx fy this] have xy: "x = y" and j: "join '','' xs = join '','' ys"
        by simp_all
      have "xs = ys"
        using Cons.IH [of ys] Cons.prems(1,2) c2 xs Cons j by simp
      with xy c2 show ?thesis by simp
    qed
  qed
qed

lemma cache_key_tag: "cache_key f h cs = (family_tag f @ h) @ CHR ''|'' # join '','' cs"
  by (cases f) (simp_all add: types_cacheKey_def tagged_cacheKey_def)

lemma family_tag_bar: "CHR ''|'' \<notin> set (family_tag f)"
  by (cases f) simp_all

lemma tagged_header_eq:
  assumes "family_tag f1 @ h1 = family_tag f2 @ h2"
    and "f1 \<noteq> f2 \<Longrightarrow> f1 = Op_types \<Longrightarrow> \<not> carries_tag h1"
    and "f1 \<noteq> f2 \<Longrightarrow> f2 = Op_types \<Longrightarrow> \<not> carries_tag h2"
  shows "f1 = f2 \<and> h1 = h2"
  using assms by (cases f1; cases f2) (auto simp: carries_tag_def)

lemma cache_key_inj:
  assumes "key_safe_header h1" and "key_safe_header h2"
    and "key_safe_tokens c1" and "key_safe_tokens c2"
    and "f1 \<noteq> f2 \<Longrightarrow> f1 = Op_types \<Longrightarrow> \<not> carries_tag h1"
    and "f1 \<noteq> f2 \<Longrightarrow> f2 = Op_types \<Longrightarrow> \<not> carries_tag h2"
    and "cache_key f1 h1 c1 = cache_key f2 h2 c2"
  shows "f1 = f2 \<and> h1 = h2 \<and> c1 = c2"
proof -
  have b1: "CHR ''|'' \<notin> set (family_tag f1 @ h1)" and b2: "CHR ''|'' \<notin> set (family_tag f2 @ h2)"
    using assms(1,2) family_tag_bar by (simp_all add: key_safe_header_def)
  from append_sep_eq [OF b1 b2] assms(7)
  have th: "family_tag f1 @ h1 = family_tag f2 @ h2" and j: "join '','' c1 = join '','' c2"
    by (simp_all add: cache_key_tag)
  from tagged_header_eq [OF th assms(5,6)] have fh: "f1 = f2 \<and> h1 = h2" by simp
  have "c1 = c2"
    using join_comma_inj [OF _ _ _ _ j] assms(3,4) by (simp add: key_safe_tokens_def)
  with fh show ?thesis by simp
qed

text \<open>
  C2, as stated, fails: the key is a plain concatenation, so a comma inside a token
  makes two different candidate sequences share a key, and the key of \<open>types\<close> has no
  family tag, so an Accept value that begins with \<^verbatim>\<open>enc:\<close> shares its keys with
  \<open>encodings\<close>.
\<close>

theorem cache_key_collision_counterexample:
  "cache_key Op_types ''*/*'' [''json,html'', ''text'']
     = cache_key Op_types ''*/*'' [''json'', ''html'', ''text'']
   \<and> [''json,html'', ''text''] \<noteq> [''json'', ''html'', ''text'']
   \<and> cache_key Op_types ''enc:gzip'' [''br'', ''gzip'']
     = cache_key Op_encodings ''gzip'' [''br'', ''gzip'']"
  by (simp add: types_cacheKey_def tagged_cacheKey_def)

text \<open>
  C2, amended. The key is a function of the family, the header value and the ordered
  candidate sequence. For header values without \<^verbatim>\<open>|\<close> and non-empty candidate
  sequences whose tokens hold no comma, two keys are equal exactly when family, header
  value and candidate sequence are equal; between \<open>types\<close> and another family this
  needs the Accept value not to begin with \<^verbatim>\<open>enc:\<close>, \<^verbatim>\<open>chr:\<close> or \<^verbatim>\<open>lng:\<close>.
\<close>

theorem cache_key_injective:
  assumes "key_safe_header h1" and "key_safe_header h2"
    and "key_safe_tokens c1" and "key_safe_tokens c2"
    and "f1 \<noteq> f2 \<Longrightarrow> f1 = Op_types \<Longrightarrow> \<not> carries_tag h1"
    and "f1 \<noteq> f2 \<Longrightarrow> f2 = Op_types \<Longrightarrow> \<not> carries_tag h2"
  shows "(cache_key f1 h1 c1 = cache_key f2 h2 c2) = (f1 = f2 \<and> h1 = h2 \<and> c1 = c2)"
  using cache_key_inj [OF assms] by blast

theorem cache_key_injective_witness:
  "key_safe_header ''gzip, br'' \<and> key_safe_tokens [''gzip'', ''br''] \<and> key_safe_tokens [''br'', ''gzip'']
   \<and> \<not> carries_tag ''text/html''
   \<and> cache_key Op_encodings ''gzip, br'' [''gzip'', ''br'']
       \<noteq> cache_key Op_encodings ''gzip, br'' [''br'', ''gzip'']
   \<and> cache_key Op_types ''text/html'' [''gzip'', ''br'']
       \<noteq> cache_key Op_encodings ''text/html'' [''gzip'', ''br'']"
  using cache_key_injective [of "''gzip, br''" "''gzip, br''" "[''gzip'', ''br'']" "[''br'', ''gzip'']"
          Op_encodings Op_encodings]
        cache_key_injective [of "''text/html''" "''text/html''" "[''gzip'', ''br'']" "[''gzip'', ''br'']"
          Op_types Op_encodings]
  by (simp add: key_safe_header_def key_safe_tokens_def carries_tag_def)

section \<open>Eviction\<close>

lemma Map_delete_head:
  "distinct (map fst ((k, v) # rest)) \<Longrightarrow> Map_delete ((k, v) # rest) k = rest"
  by (simp add: Map_delete_def)

lemma clearCacheEntries_loop_drop:
  "distinct (map fst nc) \<Longrightarrow> clearCacheEntries_loop n nc = drop n nc"
proof (induction n nc rule: clearCacheEntries_loop.induct)
  case (3 i k v rest)
  then have "distinct (map fst rest)" by simp
  with 3 show ?case by (simp add: Map_delete_head del: distinct.simps)
qed simp_all

lemma types_evict_loop_drop:
  "distinct (map fst nc) \<Longrightarrow> types_evict_loop n nc = drop n nc"
proof (induction n nc rule: types_evict_loop.induct)
  case (3 j k v rest)
  then have "distinct (map fst rest)" by simp
  with 3 show ?case by (simp add: Map_delete_head del: distinct.simps)
qed simp_all

lemma flatten_candidates:
  "\<not> no_candidates (flatten_arguments args) \<Longrightarrow>
   \<exists>cs. flatten_arguments args = JArray cs \<and> cs \<noteq> []"
proof (cases args)
  case (Args_array ts)
  assume "\<not> no_candidates (flatten_arguments args)"
  with Args_array show ?thesis by simp
next
  case (Args_variadic ts)
  assume "\<not> no_candidates (flatten_arguments args)"
  with Args_variadic show ?thesis by (cases ts) (auto split: if_splits)
qed

section \<open>The three paths of the tagged operations\<close>

lemma tagged_uncached:
  assumes "\<And>cs h. flatten_arguments args = JArray cs \<Longrightarrow> cs \<noteq> [] \<Longrightarrow> hdr = Some h \<Longrightarrow> h = []"
  shows "tagged_negotiation tag hdr method args st
           = (fst (tagged_negotiation tag hdr method args initial_caches), st)"
proof (cases "no_candidates (flatten_arguments args)")
  case True
  then show ?thesis by (simp add: tagged_negotiation_def)
next
  case False
  from flatten_candidates [OF this] obtain cs where cs: "flatten_arguments args = JArray cs" "cs \<noteq> []"
    by auto
  have "\<not> truthy (header_val hdr)"
    using assms [OF cs] by (cases hdr) auto
  then show ?thesis
    using cs by (simp add: tagged_negotiation_def Let_def)
qed

lemma tagged_hit:
  assumes "flatten_arguments args = JArray cs" and "cs \<noteq> []" and "hdr = Some h" and "h \<noteq> []"
    and "Map_get (negotiationCache st) (tagged_cacheKey tag h cs) \<noteq> JUndefined"
  shows "tagged_negotiation tag hdr method args st
           = (Map_get (negotiationCache st) (tagged_cacheKey tag h cs), st)"
  using assms by (simp add: tagged_negotiation_def Let_def)

lemma tagged_miss:
  assumes "flatten_arguments args = JArray cs" and "cs \<noteq> []" and "hdr = Some h" and "h \<noteq> []"
    and "Map_get (negotiationCache st) (tagged_cacheKey tag h cs) = JUndefined"
    and "distinct (map fst (negotiationCache st))"
  shows "tagged_negotiation tag hdr method args st
           = (or_false (index0 (method (Some cs))),
              \<lparr> negotiationCache =
                   Map_set (if CACHE_SIZE_LIMIT \<le> length (negotiationCache st)
                            then drop 100 (negotiationCache st) else negotiationCache st)
                     (tagged_cacheKey tag h cs) (or_false (index0 (method (Some cs)))),
                 mimeCache = mimeCache st \<rparr>)"
  using assms
  by (simp add: tagged_negotiation_def Let_def Map_size_def clearCacheEntries_def
        clearCacheEntries_loop_drop)

section \<open>The paths of types\<close>

lemma types_uncached:
  assumes agrees: "mimeCache_agrees lookup (mimeCache st)"
    and un: "\<And>cs h. flatten_arguments args = JArray cs \<Longrightarrow> 2 \<le> length cs \<Longrightarrow>
               headers this ''accept'' = Some h \<Longrightarrow> h = []"
  shows "\<exists>mc'. mimeCache_agrees lookup mc' \<and>
           types lookup this args st
             = (fst (types lookup this args initial_caches), st\<lparr>mimeCache := mc'\<rparr>)"
proof (cases "no_candidates (flatten_arguments args)")
  case True
  then have "types lookup this args st
             = (fst (types lookup this args initial_caches), st\<lparr>mimeCache := mimeCache st\<rparr>)"
    by (simp add: types_def)
  with agrees show ?thesis by blast
next
  case False
  from flatten_candidates [OF this] obtain cs where cs: "flatten_arguments args = JArray cs" "cs \<noteq> []"
    by auto
  show ?thesis
  proof (cases "truthy (header_val (headers this ''accept''))")
    case False
    then have "types lookup this args st
             = (fst (types lookup this args initial_caches), st\<lparr>mimeCache := mimeCache st\<rparr>)"
      using cs by (simp add: types_def)
    with agrees show ?thesis by blast
  next
    case True
    then obtain h where h: "headers this ''accept'' = Some h" "h \<noteq> []"
      by (cases "headers this ''accept''") auto
    have len: "length cs = 1"
      using un [OF cs(1) _ h(1)] h(2) cs(2) by (cases cs) (auto simp: Suc_le_eq)
    then obtain t where t: "cs = [t]" by (cases cs) auto
    have a0: "mimeCache_agrees lookup (mimeCache initial_caches)"
      by (simp add: mimeCache_agrees_def initial_caches_def)
    obtain v mc' where e: "extToMimeCached lookup t (mimeCache st) = (v, mc')" by force
    obtain v0 mc0 where e0: "extToMimeCached lookup t (mimeCache initial_caches) = (v0, mc0)" by force
    have v: "v = extToMime lookup t" "mimeCache_agrees lookup mc'"
      using extToMimeCached_agrees [OF agrees, of t] e by simp_all
    have v0: "v0 = extToMime lookup t"
      using extToMimeCached_agrees [OF a0, of t] e0 by simp
    have "types lookup this args st
             = (fst (types lookup this args initial_caches), st\<lparr>mimeCache := mc'\<rparr>)"
      using cs t h e e0 v(1) v0 by (simp add: types_def Let_def)
    with v(2) show ?thesis by blast
  qed
qed

lemma types_hit:
  assumes "flatten_arguments args = JArray cs" and "2 \<le> length cs"
    and "headers this ''accept'' = Some h" and "h \<noteq> []"
    and "Map_get (negotiationCache st) (types_cacheKey h cs) \<noteq> JUndefined"
  shows "types lookup this args st = (Map_get (negotiationCache st) (types_cacheKey h cs), st)"
proof -
  have "cs \<noteq> []" "length cs \<noteq> 1" using assms(2) by auto
  then show ?thesis using assms by (simp add: types_def Let_def)
qed

lemma types_miss:
  assumes "flatten_arguments args = JArray cs" and "2 \<le> length cs"
    and "headers this ''accept'' = Some h" and "h \<noteq> []"
    and "Map_get (negotiationCache st) (types_cacheKey h cs) = JUndefined"
    and "mimeCache_agrees lookup (mimeCache st)"
    and "distinct (map fst (negotiationCache st))"
  shows "\<exists>mc'. mimeCache_agrees lookup mc' \<and>
           types lookup this args st =
             (types_outcome lookup (mediaTypes (negotiator this)) cs,
              \<lparr> negotiationCache =
                   Map_set (if CACHE_SIZE_LIMIT \<le> length (negotiationCache st)
                            then drop 100 (negotiationCache st) else negotiationCache st)
                     (types_cacheKey h cs) (types_outcome lookup (mediaTypes (negotiator this)) cs),
                 mimeCache = mc' \<rparr>)"
  using types_general_miss [OF assms(3,4,1,2,6,5)]
  unfolding Map_size_def types_evict_loop_drop [OF assms(7)] .


section \<open>Every call: uncached, hit or miss\<close>

lemma cached_callD:
  assumes "cached_call (f', req, args) = Some (f, h, cs)"
  shows "f' = f" and "flatten_arguments args = JArray cs"
    and "req_headers req (header_name f) = Some h" and "cs \<noteq> []" and "h \<noteq> []"
    and "f = Op_types \<Longrightarrow> 2 \<le> length cs"
  using assms by (auto split: jsval.splits option.splits if_splits)

lemma cached_call_NoneD:
  assumes "cached_call (f, req, args) = None"
    and "flatten_arguments args = JArray cs" and "cs \<noteq> []"
    and "req_headers req (header_name f) = Some h"
    and "f = Op_types \<Longrightarrow> 2 \<le> length cs"
  shows "h = []"
  using assms by (auto split: jsval.splits option.splits if_splits)

lemma Accepts_simps:
  "headers (Accepts E req) = req_headers req"
  "mediaTypes (negotiator (Accepts E req)) = engine_mediaTypes E (req_headers req ''accept'')"
  "neg_encodings (negotiator (Accepts E req)) = engine_encodings E (req_headers req ''accept-encoding'')"
  "neg_charsets (negotiator (Accepts E req)) = engine_charsets E (req_headers req ''accept-charset'')"
  "neg_languages (negotiator (Accepts E req)) = engine_languages E (req_headers req ''accept-language'')"
  by (simp_all add: Accepts_def Negotiator_def)

lemma perform_uncached:
  assumes "mimeCache_agrees lookup (mimeCache st)" and "cached_call c = None"
  shows "\<exists>mc'. mimeCache_agrees lookup mc' \<and>
           perform E lookup c st = (fst (perform E lookup c initial_caches), st\<lparr>mimeCache := mc'\<rparr>)"
proof -
  obtain f req args where c: "c = (f, req, args)" by (cases c) auto
  note none = assms(2) [unfolded c]
  show ?thesis
  proof (cases "f = Op_types")
    case True
    have un: "h = []"
      if "flatten_arguments args = JArray cs" and "2 \<le> length cs"
        and "headers (Accepts E req) ''accept'' = Some h" for cs h
    proof -
      from that(2) have "cs \<noteq> []" by auto
      moreover from that(3) True have "req_headers req (header_name f) = Some h"
        by (simp add: Accepts_simps)
      ultimately show ?thesis
        using cached_call_NoneD [OF none that(1)] that(2) by blast
    qed
    from types_uncached [OF assms(1) un] show ?thesis
      using c True by simp
  next
    case False
    have un: "\<And>cs h. flatten_arguments args = JArray cs \<Longrightarrow> cs \<noteq> [] \<Longrightarrow>
               req_headers req (header_name f) = Some h \<Longrightarrow> h = []"
      using cached_call_NoneD [OF none] False by auto
    have "perform E lookup c st = (fst (perform E lookup c initial_caches), st)"
      using False c tagged_uncached [OF un, where st = st]
      by (cases f) (simp_all add: encodings_def charsets_def languages_def Accepts_simps)
    then have "perform E lookup c st
                 = (fst (perform E lookup c initial_caches), st\<lparr>mimeCache := mimeCache st\<rparr>)"
      by simp
    with assms(1) show ?thesis by blast
  qed
qed

lemma perform_hit:
  assumes "cached_call c = Some (f, h, cs)"
    and "Map_get (negotiationCache st) (cache_key f h cs) \<noteq> JUndefined"
  shows "perform E lookup c st = (Map_get (negotiationCache st) (cache_key f h cs), st)"
proof -
  obtain f' req args where c: "c = (f', req, args)" by (cases c) auto
  note d = cached_callD [OF assms(1) [unfolded c]]
  show ?thesis
  proof (cases "f = Op_types")
    case True
    with types_hit [of args cs "Accepts E req" h st lookup] d assms(2) c show ?thesis
      by (simp add: Accepts_simps)
  next
    case False
    with tagged_hit [OF d(2) d(4) d(3) d(5), of st "family_tag f"] d(1) assms(2) c show ?thesis
      by (cases f) (simp_all add: encodings_def charsets_def languages_def Accepts_simps)
  qed
qed

lemma perform_miss:
  assumes "cached_call c = Some (f, h, cs)"
    and "Map_get (negotiationCache st) (cache_key f h cs) = JUndefined"
    and "mimeCache_agrees lookup (mimeCache st)"
    and "distinct (map fst (negotiationCache st))"
  shows "\<exists>mc'. mimeCache_agrees lookup mc' \<and>
           perform E lookup c st =
             (outcome E lookup f h cs,
              \<lparr> negotiationCache =
                   Map_set (if CACHE_SIZE_LIMIT \<le> length (negotiationCache st)
                            then drop 100 (negotiationCache st) else negotiationCache st)
                     (cache_key f h cs) (outcome E lookup f h cs),
                 mimeCache = mc' \<rparr>)"
proof -
  obtain f' req args where c: "c = (f', req, args)" by (cases c) auto
  note d = cached_callD [OF assms(1) [unfolded c]]
  show ?thesis
  proof (cases "f = Op_types")
    case True
    have "headers (Accepts E req) ''accept'' = Some h" using d(3) True by (simp add: Accepts_simps)
    from types_miss [OF d(2) d(6) [OF True] this d(5) _ assms(3,4)] assms(2) True
    show ?thesis using c d(1) d(3) by (simp add: Accepts_simps)
  next
    case False
    have "mimeCache_agrees lookup (mimeCache st)" by (rule assms(3))
    moreover have "perform E lookup c st =
             (outcome E lookup f h cs,
              \<lparr> negotiationCache =
                   Map_set (if CACHE_SIZE_LIMIT \<le> length (negotiationCache st)
                            then drop 100 (negotiationCache st) else negotiationCache st)
                     (cache_key f h cs) (outcome E lookup f h cs),
                 mimeCache = mimeCache st \<rparr>)"
      using False tagged_miss [OF d(2) d(4) d(3) d(5) _ assms(4), of "family_tag f"] d(1,3) assms(2) c
      by (cases f) (simp_all add: encodings_def charsets_def languages_def Accepts_simps)
    ultimately show ?thesis by blast
  qed
qed


section \<open>Invariants of the result cache\<close>

lemma Map_set_list_all:
  "P (k, v) \<Longrightarrow> list_all P m \<Longrightarrow> list_all P (Map_set m k v)"
  unfolding Map_set_def by (induction m) auto

lemma list_all_drop: "list_all P xs \<Longrightarrow> list_all P (drop n xs)"
  by (auto simp: list_all_iff dest: in_set_dropD)

lemma Map_set_distinct: "distinct (map fst m) \<Longrightarrow> distinct (map fst (Map_set m k v))"
  by (simp add: Map_set_def distinct_update)

lemma Map_set_length: "length (Map_set m k v) \<le> Suc (length m)"
  unfolding Map_set_def by (induction m) auto

lemma Map_get_in_set:
  "Map_get m k \<noteq> JUndefined \<Longrightarrow> (k, Map_get m k) \<in> set m"
  by (auto simp: Map_get_def split: option.splits dest: map_of_SomeD)

lemma Map_get_undefined_iff:
  assumes "list_all (\<lambda>(k, v). v \<noteq> JUndefined) m"
  shows "(Map_get m k = JUndefined) = (k \<notin> fst ` set m)"
proof (cases "map_of m k")
  case None
  then have "k \<notin> fst ` set m" by (simp add: map_of_eq_None_iff)
  with None show ?thesis by (simp add: Map_get_def)
next
  case (Some v)
  then have "(k, v) \<in> set m" by (rule map_of_SomeD)
  with assms have "v \<noteq> JUndefined" "k \<in> fst ` set m" by (force simp: list_all_iff)+
  with Some show ?thesis by (simp add: Map_get_def)
qed

lemma perform_cache_cases:
  assumes "caches_ok lookup st"
  shows "mimeCache_agrees lookup (mimeCache (snd (perform E lookup c st)))
    \<and> (negotiationCache (snd (perform E lookup c st)) = negotiationCache st
       \<or> (\<exists>f h cs. cached_call c = Some (f, h, cs)
            \<and> Map_get (negotiationCache st) (cache_key f h cs) = JUndefined
            \<and> fst (perform E lookup c st) = outcome E lookup f h cs
            \<and> negotiationCache (snd (perform E lookup c st))
                = Map_set (if CACHE_SIZE_LIMIT \<le> length (negotiationCache st)
                           then drop 100 (negotiationCache st) else negotiationCache st)
                    (cache_key f h cs) (outcome E lookup f h cs)))"
proof -
  from assms have agrees: "mimeCache_agrees lookup (mimeCache st)"
    and dist: "distinct (map fst (negotiationCache st))"
    by (simp_all add: caches_ok_def)
  show ?thesis
  proof (cases "cached_call c")
    case None
    from perform_uncached [OF agrees None, of E] show ?thesis by auto
  next
    case (Some triple)
    obtain f h cs where triple: "triple = (f, h, cs)" by (cases triple) auto
    note cc = Some [unfolded triple]
    show ?thesis
    proof (cases "Map_get (negotiationCache st) (cache_key f h cs) = JUndefined")
      case True
      from perform_miss [OF cc True agrees dist, of E] cc True show ?thesis by auto
    next
      case False
      from perform_hit [OF cc False, of E lookup] agrees show ?thesis by simp
    qed
  qed
qed

lemma perform_caches_ok:
  assumes "caches_ok lookup st"
  shows "caches_ok lookup (snd (perform E lookup c st))"
proof -
  from assms have dist: "distinct (map fst (negotiationCache st))"
    and len: "length (negotiationCache st) \<le> 1000"
    by (simp_all add: caches_ok_def Map_size_def CACHE_SIZE_LIMIT_def)
  let ?nc = "negotiationCache st"
  have "distinct (map fst (Map_set (if CACHE_SIZE_LIMIT \<le> length ?nc then drop 100 ?nc else ?nc) k v))
      \<and> length (Map_set (if CACHE_SIZE_LIMIT \<le> length ?nc then drop 100 ?nc else ?nc) k v) \<le> 1000"
    for k v
  proof (cases "CACHE_SIZE_LIMIT \<le> length ?nc")
    case True
    have "distinct (map fst (drop 100 ?nc))" using dist by (simp add: distinct_drop drop_map [symmetric])
    moreover have "length (Map_set (drop 100 ?nc) k v) \<le> Suc (length (drop 100 ?nc))"
      by (rule Map_set_length)
    ultimately show ?thesis using True len by (simp add: Map_set_distinct)
  next
    case False
    have "length (Map_set ?nc k v) \<le> Suc (length ?nc)" by (rule Map_set_length)
    then show ?thesis using False dist by (simp add: Map_set_distinct CACHE_SIZE_LIMIT_def)
  qed
  with perform_cache_cases [OF assms, of E c] assms show ?thesis
    by (auto simp: caches_ok_def Map_size_def CACHE_SIZE_LIMIT_def)
qed

lemma snd_run_Cons:
  "snd (run E lookup (c # cs) st) = snd (run E lookup cs (snd (perform E lookup c st)))"
  by (simp add: split_def Let_def)

lemma run_caches_ok:
  "caches_ok lookup st \<Longrightarrow> caches_ok lookup (snd (run E lookup calls st))"
proof (induction calls arbitrary: st)
  case Nil
  then show ?case by simp
next
  case (Cons c calls)
  from Cons.IH [OF perform_caches_ok [OF Cons.prems]] show ?case
    by (simp only: snd_run_Cons)
qed

lemma initial_caches_ok: "caches_ok lookup initial_caches"
  by (simp add: caches_ok_def initial_caches_def mimeCache_agrees_def Map_size_def)


lemma snd_run_append:
  "snd (run E lookup (xs @ ys) st) = snd (run E lookup ys (snd (run E lookup xs st)))"
  by (induction xs arbitrary: st) (simp_all add: split_def Let_def)

section \<open>The bound on the result cache\<close>

lemma Map_set_absent: "k \<notin> fst ` set m \<Longrightarrow> Map_set m k v = m @ [(k, v)]"
  unfolding Map_set_def by (induction m) auto

lemma Map_get_absent: "k \<notin> fst ` set m \<Longrightarrow> Map_get m k = JUndefined"
  by (simp add: Map_get_def map_of_eq_None_iff [THEN iffD2])

lemma cached_call_fill:
  "cached_call (fill_call i) = Some (Op_encodings, ''gzip'', [replicate (Suc i) (CHR ''a'')])"
  by (simp add: fill_call_def request_with_def)

lemma outcome_fill:
  "tok \<noteq> [] \<Longrightarrow> outcome echo_engine lookup Op_encodings h [tok] = JString tok"
  by (simp add: echo_engine_def or_false_def)

lemma fill_key_fresh:
  "cache_key Op_encodings ''gzip'' [replicate (Suc n) (CHR ''a'')]
     \<notin> fst ` set (map (\<lambda>i. (cache_key Op_encodings ''gzip'' [replicate (Suc i) (CHR ''a'')],
                               JString (replicate (Suc i) (CHR ''a'')))) [m..<n])"
proof
  assume "cache_key Op_encodings ''gzip'' [replicate (Suc n) (CHR ''a'')]
     \<in> fst ` set (map (\<lambda>i. (cache_key Op_encodings ''gzip'' [replicate (Suc i) (CHR ''a'')],
                               JString (replicate (Suc i) (CHR ''a'')))) [m..<n])"
  then obtain i where "i < n"
    and "replicate (Suc n) (CHR ''a'') = replicate (Suc i) (CHR ''a'')"
    by (auto simp: tagged_cacheKey_def)
  then have "length (replicate (Suc n) (CHR ''a'')) = length (replicate (Suc i) (CHR ''a''))"
    by simp
  with \<open>i < n\<close> show False by simp
qed

lemma fill_state:
  "n \<le> 1000 \<Longrightarrow>
   negotiationCache (snd (run echo_engine lookup (fill_calls n) initial_caches))
     = map (\<lambda>i. (cache_key Op_encodings ''gzip'' [replicate (Suc i) (CHR ''a'')],
                  JString (replicate (Suc i) (CHR ''a'')))) [0..<n]"
proof (induction n)
  case 0
  then show ?case by (simp add: fill_calls_def initial_caches_def)
next
  case (Suc n)
  let ?st = "snd (run echo_engine lookup (fill_calls n) initial_caches)"
  let ?k = "cache_key Op_encodings ''gzip'' [replicate (Suc n) (CHR ''a'')]"
  let ?v = "JString (replicate (Suc n) (CHR ''a''))"
  have nc: "negotiationCache ?st
     = map (\<lambda>i. (cache_key Op_encodings ''gzip'' [replicate (Suc i) (CHR ''a'')],
                  JString (replicate (Suc i) (CHR ''a'')))) [0..<n]"
    using Suc by simp
  have ok: "caches_ok lookup ?st" by (rule run_caches_ok [OF initial_caches_ok])
  have fresh: "?k \<notin> fst ` set (negotiationCache ?st)"
    unfolding nc by (rule fill_key_fresh)
  have small: "\<not> CACHE_SIZE_LIMIT \<le> length (negotiationCache ?st)"
    using Suc.prems by (simp add: nc CACHE_SIZE_LIMIT_def)
  from perform_miss [OF cached_call_fill Map_get_absent [OF fresh], of lookup echo_engine] ok
  have "negotiationCache (snd (perform echo_engine lookup (fill_call n) ?st))
          = Map_set (negotiationCache ?st) ?k ?v"
    using small
    by (auto simp: caches_ok_def outcome_fill simp del: outcome.simps cache_key.simps)
  also have "\<dots> = negotiationCache ?st @ [(?k, ?v)]" by (rule Map_set_absent [OF fresh])
  finally have "negotiationCache (snd (perform echo_engine lookup (fill_call n) ?st))
          = negotiationCache ?st @ [(?k, ?v)]" .
  moreover have "fill_calls (Suc n) = fill_calls n @ [fill_call n]"
    by (simp add: fill_calls_def)
  ultimately show ?case
    by (simp add: snd_run_append nc split_def Let_def)
qed

text \<open>
  C5. After any sequence of calls of the four operations, starting from the empty
  caches, the result cache holds at most \<open>CACHE_SIZE_LIMIT\<close> (1000) entries; and when
  it is at the bound, a call either leaves it as it is or removes its 100 oldest entries
  and then stores its outcome.
\<close>

theorem result_cache_bounded:
  assumes "st = snd (run E lookup calls initial_caches)"
  shows "Map_size (negotiationCache st) \<le> CACHE_SIZE_LIMIT
    \<and> CACHE_SIZE_LIMIT = 1000
    \<and> (CACHE_SIZE_LIMIT \<le> Map_size (negotiationCache st) \<longrightarrow>
         negotiationCache (snd (perform E lookup c st)) = negotiationCache st
         \<or> (\<exists>k. negotiationCache (snd (perform E lookup c st))
                  = Map_set (drop 100 (negotiationCache st)) k (fst (perform E lookup c st))))"
proof -
  have ok: "caches_ok lookup st"
    unfolding assms by (rule run_caches_ok [OF initial_caches_ok])
  from perform_cache_cases [OF ok, of E c] ok show ?thesis
    by (auto simp: caches_ok_def Map_size_def CACHE_SIZE_LIMIT_def)
qed

theorem result_cache_bounded_witness:
  "CACHE_SIZE_LIMIT
     \<le> Map_size (negotiationCache (snd (run echo_engine sample_lookup (fill_calls 1000) initial_caches)))
   \<and> Map_size (negotiationCache (snd (run echo_engine sample_lookup (fill_calls 1000) initial_caches)))
     \<le> CACHE_SIZE_LIMIT
   \<and> Map_size (negotiationCache (snd (run echo_engine sample_lookup (fill_calls 1001) initial_caches)))
     = 901"
proof -
  let ?st = "snd (run echo_engine sample_lookup (fill_calls 1000) initial_caches)"
  let ?k = "cache_key Op_encodings ''gzip'' [replicate (Suc 1000) (CHR ''a'')]"
  have nc: "negotiationCache ?st
     = map (\<lambda>i. (cache_key Op_encodings ''gzip'' [replicate (Suc i) (CHR ''a'')],
                  JString (replicate (Suc i) (CHR ''a'')))) [0..<1000]"
    by (rule fill_state) simp
  then have full: "Map_size (negotiationCache ?st) = 1000" by (simp add: Map_size_def)
  have fresh: "?k \<notin> fst ` set (negotiationCache ?st)"
    unfolding nc by (rule fill_key_fresh)
  from result_cache_bounded [of ?st echo_engine sample_lookup "fill_calls 1000" "fill_call 1000"]
  have bound: "Map_size (negotiationCache ?st) \<le> CACHE_SIZE_LIMIT"
    and step: "negotiationCache (snd (perform echo_engine sample_lookup (fill_call 1000) ?st))
                 = negotiationCache ?st
         \<or> (\<exists>k. negotiationCache (snd (perform echo_engine sample_lookup (fill_call 1000) ?st))
                  = Map_set (drop 100 (negotiationCache ?st)) k
                      (fst (perform echo_engine sample_lookup (fill_call 1000) ?st)))"
    using full by (simp_all add: CACHE_SIZE_LIMIT_def)
  have ok: "caches_ok sample_lookup ?st" by (rule run_caches_ok [OF initial_caches_ok])
  from perform_miss [OF cached_call_fill Map_get_absent [OF fresh], of sample_lookup echo_engine] ok
  have "negotiationCache (snd (perform echo_engine sample_lookup (fill_call 1000) ?st))
          = Map_set (drop 100 (negotiationCache ?st)) ?k (JString (replicate (Suc 1000) (CHR ''a'')))"
    using full
    by (auto simp: caches_ok_def outcome_fill Map_size_def CACHE_SIZE_LIMIT_def
          simp del: outcome.simps cache_key.simps)
  moreover have "?k \<notin> fst ` set (drop 100 (negotiationCache ?st))"
    using fresh by (auto dest: in_set_dropD)
  ultimately have "negotiationCache (snd (perform echo_engine sample_lookup (fill_call 1000) ?st))
          = drop 100 (negotiationCache ?st) @ [(?k, JString (replicate (Suc 1000) (CHR ''a'')))]"
    by (simp add: Map_set_absent)
  then have "Map_size (negotiationCache (snd (perform echo_engine sample_lookup (fill_call 1000) ?st)))
          = 901"
    using full by (simp add: Map_size_def)
  moreover have "fill_calls 1001 = fill_calls 1000 @ [fill_call 1000]"
  proof -
    have "fill_calls (Suc 1000) = fill_calls 1000 @ [fill_call 1000]"
      by (simp only: fill_calls_def upt_Suc_append [OF le0] map_append list.map)
    then show ?thesis by simp
  qed
  ultimately have "Map_size (negotiationCache
      (snd (run echo_engine sample_lookup (fill_calls 1001) initial_caches))) = 901"
    by (simp add: snd_run_append split_def Let_def)
  with full bound show ?thesis by (simp add: CACHE_SIZE_LIMIT_def)
qed

section \<open>The values held by the result cache\<close>

lemma or_false_index0:
  "or_false (index0 xs) = JFalse \<or> (\<exists>t\<in>set xs. or_false (index0 xs) = JString t)"
  by (cases xs) (simp_all add: or_false_def)

lemma resolved_mimes_member:
  assumes "m \<in> set (resolved_mimes lookup cs)"
  shows "\<exists>t\<in>set cs. extToMime lookup t = JString m"
proof -
  from assms obtain t where "t \<in> set cs" and "validMime (extToMime lookup t)"
    and "m = string_of (extToMime lookup t)"
    by (auto simp: resolved_mimes_def)
  then show ?thesis by (auto simp: validMime_iff)
qed

lemma types_outcome_value:
  assumes "set (method (Some (resolved_mimes lookup cs))) \<subseteq> set (resolved_mimes lookup cs)"
  shows "types_outcome lookup method cs = JFalse
         \<or> (\<exists>t\<in>set cs. types_outcome lookup method cs = JString t)"
proof (cases "truthy (index0 (method (Some (resolved_mimes lookup cs))))")
  case False
  then show ?thesis by (simp add: types_outcome_def)
next
  case True
  then obtain m ms where ms: "method (Some (resolved_mimes lookup cs)) = m # ms"
    by (cases "method (Some (resolved_mimes lookup cs))") auto
  with assms have "m \<in> set (resolved_mimes lookup cs)" by auto
  from resolved_mimes_member [OF this]
  have ne: "filter (\<lambda>t. extToMime lookup t = JString m) cs \<noteq> []"
    by (auto simp: filter_empty_conv)
  then have "last (filter (\<lambda>t. extToMime lookup t = JString m) cs)
               \<in> set (filter (\<lambda>t. extToMime lookup t = JString m) cs)"
    by (rule last_in_set)
  then have "last (filter (\<lambda>t. extToMime lookup t = JString m) cs) \<in> set cs" by simp
  moreover have "types_outcome lookup method cs
                   = JString (last (filter (\<lambda>t. extToMime lookup t = JString m) cs))"
    using True ms ne by (simp add: types_outcome_def split: list.splits)
  ultimately show ?thesis by blast
qed

lemma outcome_value:
  assumes "engine_answers_offered E"
  shows "outcome E lookup f h cs = JFalse \<or> (\<exists>t\<in>set cs. outcome E lookup f h cs = JString t)"
proof (cases f)
  case Op_types
  have "set (engine_mediaTypes E (Some h) (Some (resolved_mimes lookup cs)))
          \<subseteq> set (resolved_mimes lookup cs)"
    using assms by (simp add: engine_answers_offered_def)
  from types_outcome_value [of "engine_mediaTypes E (Some h)" lookup cs, OF this] Op_types
  show ?thesis by simp
next
  case Op_encodings
  have "set (engine_encodings E (Some h) (Some cs)) \<subseteq> set cs"
    using assms by (simp add: engine_answers_offered_def)
  with or_false_index0 [of "engine_encodings E (Some h) (Some cs)"] Op_encodings
  show ?thesis by auto
next
  case Op_charsets
  have "set (engine_charsets E (Some h) (Some cs)) \<subseteq> set cs"
    using assms by (simp add: engine_answers_offered_def)
  with or_false_index0 [of "engine_charsets E (Some h) (Some cs)"] Op_charsets
  show ?thesis by auto
next
  case Op_languages
  have "set (engine_languages E (Some h) (Some cs)) \<subseteq> set cs"
    using assms by (simp add: engine_answers_offered_def)
  with or_false_index0 [of "engine_languages E (Some h) (Some cs)"] Op_languages
  show ?thesis by auto
qed

lemma perform_values_ok:
  assumes "engine_answers_offered E" and "caches_ok lookup st"
    and "cache_values_ok (negotiationCache st)"
  shows "cache_values_ok (negotiationCache (snd (perform E lookup c st)))"
proof -
  let ?P = "\<lambda>(k, v). v = JFalse \<or> (\<exists>f h cs t. k = cache_key f h cs \<and> t \<in> set cs \<and> v = JString t)"
  have new: "?P (cache_key f h cs, outcome E lookup f h cs)" for f h cs
    using outcome_value [OF assms(1), of lookup f h cs] by (simp del: outcome.simps cache_key.simps) blast
  have old: "list_all ?P (if CACHE_SIZE_LIMIT \<le> length (negotiationCache st)
                           then drop 100 (negotiationCache st) else negotiationCache st)"
    using assms(3) by (simp add: cache_values_ok_def list_all_drop)
  have "list_all ?P (Map_set (if CACHE_SIZE_LIMIT \<le> length (negotiationCache st)
                               then drop 100 (negotiationCache st) else negotiationCache st)
                       (cache_key f h cs) (outcome E lookup f h cs))" for f h cs
    by (rule Map_set_list_all [OF new old])
  with perform_cache_cases [OF assms(2), of E c] assms(3) show ?thesis
    unfolding cache_values_ok_def by (auto simp del: outcome.simps cache_key.simps)
qed

lemma run_values_ok:
  assumes "engine_answers_offered E"
  shows "caches_ok lookup st \<Longrightarrow> cache_values_ok (negotiationCache st) \<Longrightarrow>
         cache_values_ok (negotiationCache (snd (run E lookup calls st)))"
proof (induction calls arbitrary: st)
  case Nil
  then show ?case by simp
next
  case (Cons c calls)
  from Cons.IH [OF perform_caches_ok [OF Cons.prems(1)]
                   perform_values_ok [OF assms Cons.prems(1,2)]]
  show ?case by (simp only: snd_run_Cons)
qed

lemma values_ok_defined:
  "cache_values_ok nc \<Longrightarrow> list_all (\<lambda>(k, v). v \<noteq> JUndefined) nc"
  by (auto simp: cache_values_ok_def list_all_iff)

lemma reachable_values_ok:
  assumes "engine_answers_offered E"
  shows "cache_values_ok (negotiationCache (snd (run E lookup calls initial_caches)))"
  by (rule run_values_ok [OF assms initial_caches_ok])
     (simp add: cache_values_ok_def initial_caches_def)

lemma echo_engine_answers_offered: "engine_answers_offered echo_engine"
  by (simp add: engine_answers_offered_def echo_engine_def)

lemma perform_stores_outcome:
  assumes "caches_ok lookup st" and "cached_call c = Some (f, h, cs)"
    and "Map_get (negotiationCache st) (cache_key f h cs) = JUndefined"
  shows "Map_get (negotiationCache (snd (perform E lookup c st))) (cache_key f h cs)
           = fst (perform E lookup c st)"
    and "fst (perform E lookup c st) = outcome E lookup f h cs"
  using perform_miss [OF assms(2,3), of lookup E] assms(1)
  by (auto simp: caches_ok_def Map_get_set simp del: outcome.simps cache_key.simps)


section \<open>Eviction and the entry being inserted\<close>

text \<open>
  C8. Let the engine answer with candidates it was offered. In every state reached from
  the empty caches, a call that misses the result cache finds its key absent from the
  store, so the eviction that may run before the insertion cannot remove the entry being
  inserted; after the call the store holds that key with the outcome of the call. Both
  eviction loops leave an empty store empty.
\<close>

theorem eviction_spares_inserted_entry:
  assumes "engine_answers_offered E"
    and "st = snd (run E lookup calls initial_caches)"
    and "cached_call c = Some (f, h, cs)"
    and "Map_get (negotiationCache st) (cache_key f h cs) = JUndefined"
  shows "cache_key f h cs \<notin> fst ` set (negotiationCache st)
    \<and> (cache_key f h cs, fst (perform E lookup c st))
         \<in> set (negotiationCache (snd (perform E lookup c st)))
    \<and> clearCacheEntries [] = []
    \<and> types_evict_loop 100 [] = []"
proof -
  have ok: "caches_ok lookup st"
    unfolding assms(2) by (rule run_caches_ok [OF initial_caches_ok])
  have "cache_values_ok (negotiationCache st)"
    unfolding assms(2) by (rule reachable_values_ok [OF assms(1)])
  from Map_get_undefined_iff [OF values_ok_defined [OF this]] assms(4)
  have absent: "cache_key f h cs \<notin> fst ` set (negotiationCache st)" by simp
  note stored = perform_stores_outcome [OF ok assms(3,4), of E]
  have "fst (perform E lookup c st) \<noteq> JUndefined"
    using outcome_value [OF assms(1), of lookup f h cs] stored(2) by auto
  with stored(1) Map_get_in_set [of "negotiationCache (snd (perform E lookup c st))" "cache_key f h cs"]
  have present: "(cache_key f h cs, fst (perform E lookup c st))
         \<in> set (negotiationCache (snd (perform E lookup c st)))"
    by simp
  have "clearCacheEntries [] = []"
    by (simp add: clearCacheEntries_def clearCacheEntries_loop_drop)
  moreover have "types_evict_loop 100 [] = []"
    by (simp add: types_evict_loop_drop)
  ultimately show ?thesis using absent present by simp
qed

theorem eviction_spares_inserted_entry_witness:
  "engine_answers_offered echo_engine
   \<and> cached_call (fill_call 1000) = Some (Op_encodings, ''gzip'', [replicate 1001 (CHR ''a'')])
   \<and> CACHE_SIZE_LIMIT
       \<le> Map_size (negotiationCache (snd (run echo_engine sample_lookup (fill_calls 1000) initial_caches)))
   \<and> (cache_key Op_encodings ''gzip'' [replicate 1001 (CHR ''a'')], JString (replicate 1001 (CHR ''a'')))
       \<in> set (negotiationCache (snd (perform echo_engine sample_lookup (fill_call 1000)
                 (snd (run echo_engine sample_lookup (fill_calls 1000) initial_caches)))))"
proof -
  let ?st = "snd (run echo_engine sample_lookup (fill_calls 1000) initial_caches)"
  let ?tok = "replicate (Suc 1000) (CHR ''a'')"
  have nc: "negotiationCache ?st
     = map (\<lambda>i. (cache_key Op_encodings ''gzip'' [replicate (Suc i) (CHR ''a'')],
                  JString (replicate (Suc i) (CHR ''a'')))) [0..<1000]"
    by (rule fill_state) simp
  then have full: "CACHE_SIZE_LIMIT \<le> Map_size (negotiationCache ?st)"
    by (simp add: Map_size_def CACHE_SIZE_LIMIT_def)
  have fresh: "cache_key Op_encodings ''gzip'' [?tok] \<notin> fst ` set (negotiationCache ?st)"
    unfolding nc by (rule fill_key_fresh)
  have ok: "caches_ok sample_lookup ?st" by (rule run_caches_ok [OF initial_caches_ok])
  have out: "fst (perform echo_engine sample_lookup (fill_call 1000) ?st) = JString ?tok"
    using perform_stores_outcome(2) [OF ok cached_call_fill Map_get_absent [OF fresh], of echo_engine]
      outcome_fill [of ?tok sample_lookup "''gzip''"]
    by (simp del: outcome.simps cache_key.simps replicate.simps)
  have "(cache_key Op_encodings ''gzip'' [?tok], fst (perform echo_engine sample_lookup (fill_call 1000) ?st))
         \<in> set (negotiationCache (snd (perform echo_engine sample_lookup (fill_call 1000) ?st)))"
    using eviction_spares_inserted_entry
            [OF echo_engine_answers_offered refl cached_call_fill Map_get_absent [OF fresh]]
    by blast
  then have "(cache_key Op_encodings ''gzip'' [?tok], JString ?tok)
         \<in> set (negotiationCache (snd (perform echo_engine sample_lookup (fill_call 1000) ?st)))"
    by (simp only: out)
  moreover have "Suc 1000 = (1001::nat)" by simp
  ultimately show ?thesis
    using full echo_engine_answers_offered cached_call_fill [of 1000]
    by (simp del: cache_key.simps replicate.simps replicate_Suc)
qed

section \<open>Stored outcomes are never undefined\<close>

text \<open>
  C10. Let the engine answer with candidates it was offered. In every state reached from
  the empty caches, every value in the result cache is \<^verbatim>\<open>false\<close> or a candidate token
  of a call with that key, never \<^verbatim>\<open>undefined\<close>; so a lookup yields \<^verbatim>\<open>undefined\<close>
  exactly for the keys that are absent. And when a call that goes through the cache
  returns \<^verbatim>\<open>false\<close>, the same call made next returns \<^verbatim>\<open>false\<close> again and
  leaves the caches as they are, whatever the engine and the lookup table would now
  answer: the outcome is served from the cache.
\<close>

theorem cached_values_never_undefined:
  assumes "engine_answers_offered E"
    and "st = snd (run E lookup calls initial_caches)"
  shows "cache_values_ok (negotiationCache st)
    \<and> (\<forall>k. (Map_get (negotiationCache st) k = JUndefined) = (k \<notin> fst ` set (negotiationCache st)))
    \<and> (cached_call c \<noteq> None \<longrightarrow> fst (perform E lookup c st) = JFalse \<longrightarrow>
         perform E' lookup' c (snd (perform E lookup c st)) = (JFalse, snd (perform E lookup c st)))"
proof -
  have ok: "caches_ok lookup st"
    unfolding assms(2) by (rule run_caches_ok [OF initial_caches_ok])
  have vals: "cache_values_ok (negotiationCache st)"
    unfolding assms(2) by (rule reachable_values_ok [OF assms(1)])
  have miss_test: "(Map_get (negotiationCache st) k = JUndefined) = (k \<notin> fst ` set (negotiationCache st))"
    for k
    by (rule Map_get_undefined_iff [OF values_ok_defined [OF vals]])
  have served: "perform E' lookup' c (snd (perform E lookup c st)) = (JFalse, snd (perform E lookup c st))"
    if cc: "cached_call c \<noteq> None" and res: "fst (perform E lookup c st) = JFalse"
  proof -
    from cc obtain f h cs where triple: "cached_call c = Some (f, h, cs)" by auto
    let ?st1 = "snd (perform E lookup c st)"
    have "Map_get (negotiationCache ?st1) (cache_key f h cs) = JFalse"
    proof (cases "Map_get (negotiationCache st) (cache_key f h cs) = JUndefined")
      case True
      from perform_stores_outcome(1) [OF ok triple True, of E] res show ?thesis by simp
    next
      case False
      from perform_hit [OF triple False, of E lookup] res show ?thesis by simp
    qed
    then have "Map_get (negotiationCache ?st1) (cache_key f h cs) \<noteq> JUndefined"
      and "Map_get (negotiationCache ?st1) (cache_key f h cs) = JFalse" by simp_all
    with perform_hit [OF triple, of ?st1 E' lookup'] show ?thesis by simp
  qed
  from vals miss_test served show ?thesis by blast
qed

theorem cached_values_never_undefined_witness:
  "engine_answers_offered echo_engine
   \<and> cached_call (Op_types, request_with ''accept'' ''*/*'', Args_array [''png'', ''gif'']) \<noteq> None
   \<and> fst (perform echo_engine sample_lookup
            (Op_types, request_with ''accept'' ''*/*'', Args_array [''png'', ''gif'']) initial_caches)
       = JFalse
   \<and> fst (perform echo_engine (\<lambda>t. Some ''image/png'')
            (Op_types, request_with ''accept'' ''*/*'', Args_array [''png'', ''gif''])
            (snd (perform echo_engine sample_lookup
               (Op_types, request_with ''accept'' ''*/*'', Args_array [''png'', ''gif''])
               initial_caches)))
       = JFalse
   \<and> fst (perform echo_engine (\<lambda>t. Some ''image/png'')
            (Op_types, request_with ''accept'' ''*/*'', Args_array [''png'', ''gif''])
            initial_caches)
       = JString ''gif''"
proof -
  let ?c = "(Op_types, request_with ''accept'' ''*/*'', Args_array [''png'', ''gif''])"
  have cc: "cached_call ?c \<noteq> None" by (simp add: request_with_def)
  have r: "fst (perform echo_engine sample_lookup ?c initial_caches) = JFalse"
    by (simp add: types_def Accepts_def request_with_def extToMimeCached_def validMime_def Let_def
        sample_lookup_def initial_caches_def Map_get_def Map_set_def Negotiator_def
        echo_engine_def types_cacheKey_def Map_size_def CACHE_SIZE_LIMIT_def)
  have r': "fst (perform echo_engine (\<lambda>t. Some ''image/png'') ?c initial_caches) = JString ''gif''"
    by (simp add: types_def Accepts_def request_with_def extToMimeCached_def validMime_def Let_def
        initial_caches_def Map_get_def Map_set_def Negotiator_def
        echo_engine_def types_cacheKey_def Map_size_def CACHE_SIZE_LIMIT_def)
  from cached_values_never_undefined
         [OF echo_engine_answers_offered, of initial_caches sample_lookup "[]" ?c
            echo_engine "\<lambda>t. Some ''image/png''"] cc r
  have "perform echo_engine (\<lambda>t. Some ''image/png'') ?c
          (snd (perform echo_engine sample_lookup ?c initial_caches))
        = (JFalse, snd (perform echo_engine sample_lookup ?c initial_caches))"
    by simp
  then have "fst (perform echo_engine (\<lambda>t. Some ''image/png'') ?c
          (snd (perform echo_engine sample_lookup ?c initial_caches))) = JFalse"
    by simp
  with cc r r' echo_engine_answers_offered show ?thesis by (simp only: simp_thms)
qed

section \<open>Cached outcomes against fresh ones\<close>

lemma key_safe_outcome:
  assumes "key_safe f h cs" and "key_safe f' h' cs'"
    and "cache_key f' h' cs' = cache_key f h cs"
  shows "outcome E lookup f' h' cs' = outcome E lookup f h cs"
proof -
  have "f' = f \<and> h' = h \<and> cs' = cs"
    using assms by (intro cache_key_inj) (auto simp: key_safe_def split: if_splits)
  then show ?thesis by simp
qed

lemma initial_miss:
  assumes "cached_call c = Some (f, h, cs)"
  shows "fst (perform E lookup c initial_caches) = outcome E lookup f h cs"
proof -
  have "Map_get (negotiationCache initial_caches) (cache_key f h cs) = JUndefined"
    by (simp add: initial_caches_def Map_get_def)
  from perform_stores_outcome(2) [OF initial_caches_ok assms this] show ?thesis .
qed

lemma perform_sound:
  assumes "caches_ok lookup st" and "cache_sound E lookup (negotiationCache st)"
    and "key_safe_call c"
  shows "cache_sound E lookup (negotiationCache (snd (perform E lookup c st)))"
proof -
  let ?P = "\<lambda>(k, v). \<forall>f h cs. key_safe f h cs \<and> cache_key f h cs = k \<longrightarrow> v = outcome E lookup f h cs"
  have old: "list_all ?P (if CACHE_SIZE_LIMIT \<le> length (negotiationCache st)
                           then drop 100 (negotiationCache st) else negotiationCache st)"
    using assms(2) by (simp add: cache_sound_def list_all_drop)
  have "list_all ?P (Map_set (if CACHE_SIZE_LIMIT \<le> length (negotiationCache st)
                               then drop 100 (negotiationCache st) else negotiationCache st)
                       (cache_key f h cs) (outcome E lookup f h cs))"
    if "cached_call c = Some (f, h, cs)" for f h cs
  proof -
    from that assms(3) have safe: "key_safe f h cs" by (simp add: key_safe_call_def)
    have "?P (cache_key f h cs, outcome E lookup f h cs)"
      using key_safe_outcome [OF safe, of _ _ _ E lookup]
      by (auto simp del: outcome.simps cache_key.simps)
    from Map_set_list_all [OF this old] show ?thesis .
  qed
  with perform_cache_cases [OF assms(1), of E c] assms(2) show ?thesis
    unfolding cache_sound_def by (auto simp del: outcome.simps cache_key.simps)
qed

lemma run_sound:
  "caches_ok lookup st \<Longrightarrow> cache_sound E lookup (negotiationCache st) \<Longrightarrow>
   list_all key_safe_call calls \<Longrightarrow>
   cache_sound E lookup (negotiationCache (snd (run E lookup calls st)))"
proof (induction calls arbitrary: st)
  case Nil
  then show ?case by simp
next
  case (Cons c calls)
  from Cons.prems(3) have c: "key_safe_call c" and rest: "list_all key_safe_call calls"
    by simp_all
  from Cons.IH [OF perform_caches_ok [OF Cons.prems(1)]
                   perform_sound [OF Cons.prems(1,2) c] rest]
  show ?case by (simp only: snd_run_Cons)
qed

lemma perform_transparent:
  assumes "caches_ok lookup st" and "cache_sound E lookup (negotiationCache st)"
    and "key_safe_call c"
  shows "fst (perform E lookup c st) = fst (perform E lookup c initial_caches)"
proof (cases "cached_call c")
  case None
  from assms(1) have "mimeCache_agrees lookup (mimeCache st)" by (simp add: caches_ok_def)
  from perform_uncached [OF this None, of E] show ?thesis by auto
next
  case (Some triple)
  obtain f h cs where triple: "triple = (f, h, cs)" by (cases triple) auto
  note cc = Some [unfolded triple]
  from cc assms(3) have safe: "key_safe f h cs" by (simp add: key_safe_call_def)
  show ?thesis
  proof (cases "Map_get (negotiationCache st) (cache_key f h cs) = JUndefined")
    case True
    from perform_stores_outcome(2) [OF assms(1) cc True, of E] initial_miss [OF cc, of E lookup]
    show ?thesis by simp
  next
    case False
    from Map_get_in_set [OF False] assms(2) safe
    have "Map_get (negotiationCache st) (cache_key f h cs) = outcome E lookup f h cs"
      by (auto simp: cache_sound_def list_all_iff simp del: outcome.simps cache_key.simps)
    with perform_hit [OF cc False, of E lookup] initial_miss [OF cc, of E lookup]
    show ?thesis by simp
  qed
qed

text \<open>
  C1, as stated, fails: two different calls can share a cache key. Right after
  \<^verbatim>\<open>types(['json,html', 'text'])\<close> under \<^verbatim>\<open>Accept: */*\<close>, the call
  \<^verbatim>\<open>types(['json', 'html', 'text'])\<close> under the same header is answered \<^verbatim>\<open>'text'\<close>
  from the cache, while computed on empty caches it answers \<^verbatim>\<open>'json'\<close>.
\<close>

theorem cache_transparency_counterexample:
  "fst (perform echo_engine sample_lookup
          (Op_types, request_with ''accept'' ''*/*'', Args_array [''json'', ''html'', ''text''])
          (snd (run echo_engine sample_lookup
                  [(Op_types, request_with ''accept'' ''*/*'', Args_array [''json,html'', ''text''])]
                  initial_caches)))
     = JString ''text''
   \<and> fst (perform echo_engine sample_lookup
          (Op_types, request_with ''accept'' ''*/*'', Args_array [''json'', ''html'', ''text''])
          initial_caches)
     = JString ''json''"
  by (simp add: types_def Accepts_def request_with_def extToMimeCached_def validMime_def Let_def
        sample_lookup_def initial_caches_def Map_get_def Map_set_def Negotiator_def
        echo_engine_def types_cacheKey_def Map_size_def CACHE_SIZE_LIMIT_def)

text \<open>
  C1, amended. Let every call made so far, and the call at hand, be one whose cache key
  determines it (\<open>key_safe_call\<close>: if the call goes through the result cache, its header
  value holds no \<^verbatim>\<open>|\<close>, its candidate tokens hold no comma, and for \<open>types\<close> the
  Accept value does not begin with \<^verbatim>\<open>enc:\<close>, \<^verbatim>\<open>chr:\<close> or \<^verbatim>\<open>lng:\<close>). Then the
  result of the call in the state reached from the empty caches equals the result the
  same call computes on empty caches, where nothing can be served from a cache; and the
  same call made after any other such sequence of calls returns the same result.
\<close>

theorem cache_transparent:
  assumes "list_all key_safe_call calls" and "key_safe_call c"
  shows "fst (perform E lookup c (snd (run E lookup calls initial_caches)))
           = fst (perform E lookup c initial_caches)
    \<and> (list_all key_safe_call calls' \<longrightarrow>
         fst (perform E lookup c (snd (run E lookup calls initial_caches)))
           = fst (perform E lookup c (snd (run E lookup calls' initial_caches))))"
proof -
  have fresh: "fst (perform E lookup c (snd (run E lookup cs initial_caches)))
                 = fst (perform E lookup c initial_caches)"
    if safe: "list_all key_safe_call cs" for cs
  proof -
    have ok: "caches_ok lookup (snd (run E lookup cs initial_caches))"
      by (rule run_caches_ok [OF initial_caches_ok])
    have "cache_sound E lookup (negotiationCache initial_caches)"
      by (simp add: cache_sound_def initial_caches_def)
    from run_sound [OF initial_caches_ok this safe]
    have "cache_sound E lookup (negotiationCache (snd (run E lookup cs initial_caches)))" .
    from perform_transparent [OF ok this assms(2)] show ?thesis .
  qed
  from fresh [OF assms(1)] fresh [of calls'] show ?thesis by simp
qed

theorem cache_transparent_witness:
  "list_all key_safe_call
     [(Op_types, request_with ''accept'' ''*/*'', Args_array [''html'', ''json'']),
      (Op_encodings, request_with ''accept-encoding'' ''gzip'', Args_variadic [''gzip'', ''br''])]
   \<and> key_safe_call (Op_types, request_with ''accept'' ''*/*'', Args_array [''html'', ''json''])
   \<and> fst (perform echo_engine sample_lookup
            (Op_types, request_with ''accept'' ''*/*'', Args_array [''html'', ''json''])
            (snd (run echo_engine sample_lookup
               [(Op_types, request_with ''accept'' ''*/*'', Args_array [''html'', ''json'']),
                (Op_encodings, request_with ''accept-encoding'' ''gzip'', Args_variadic [''gzip'', ''br''])]
               initial_caches)))
       = JString ''html''
   \<and> fst (perform echo_engine sample_lookup
            (Op_types, request_with ''accept'' ''*/*'', Args_array [''html'', ''json''])
            (snd (run echo_engine sample_lookup
               [(Op_types, request_with ''accept'' ''*/*'', Args_array [''html'', ''json'']),
                (Op_encodings, request_with ''accept-encoding'' ''gzip'', Args_variadic [''gzip'', ''br''])]
               initial_caches)))
       = fst (perform echo_engine sample_lookup
            (Op_types, request_with ''accept'' ''*/*'', Args_array [''html'', ''json''])
            (snd (run echo_engine sample_lookup
               [(Op_encodings, request_with ''accept-encoding'' ''gzip'', Args_variadic [''gzip'', ''br''])]
               initial_caches)))"
proof -
  let ?c = "(Op_types, request_with ''accept'' ''*/*'', Args_array [''html'', ''json''])"
  let ?d = "(Op_encodings, request_with ''accept-encoding'' ''gzip'', Args_variadic [''gzip'', ''br''])"
  have c: "key_safe_call ?c"
    by (simp add: key_safe_call_def key_safe_def key_safe_header_def key_safe_tokens_def
          carries_tag_def request_with_def)
  have d: "key_safe_call ?d"
    by (simp add: key_safe_call_def key_safe_def key_safe_header_def key_safe_tokens_def
          carries_tag_def request_with_def)
  have fresh: "fst (perform echo_engine sample_lookup ?c initial_caches) = JString ''html''"
    by (simp add: types_def Accepts_def request_with_def extToMimeCached_def validMime_def Let_def
        sample_lookup_def initial_caches_def Map_get_def Map_set_def Negotiator_def
        echo_engine_def types_cacheKey_def Map_size_def CACHE_SIZE_LIMIT_def)
  have safe: "list_all key_safe_call [?c, ?d]" using c d by simp
  have safe': "list_all key_safe_call [?d]" using d by simp
  note inst = cache_transparent [OF safe c, of echo_engine sample_lookup "[?d]"]
  from inst fresh
  have hit: "fst (perform echo_engine sample_lookup ?c
               (snd (run echo_engine sample_lookup [?c, ?d] initial_caches))) = JString ''html''"
    by simp
  from inst safe'
  have same: "fst (perform echo_engine sample_lookup ?c
               (snd (run echo_engine sample_lookup [?c, ?d] initial_caches)))
            = fst (perform echo_engine sample_lookup ?c
               (snd (run echo_engine sample_lookup [?d] initial_caches)))"
    by blast
  from safe c hit same show ?thesis by (simp only: simp_thms)
qed

end
